theory Spec2Isabelle
  imports Main "HOL-Library.Code_Target_Nat"
begin

section \<open>Strings and the version pattern of updates.js\<close>

text \<open>
  JavaScript strings are modelled as HOL strings, one \<open>char\<close> per code unit (the 256
  characters of HOL).  \<open>null\<close> and \<open>undefined\<close> are \<open>None\<close> of an option type.
  A thrown exception is the left injection of a sum type.
\<close>

datatype error = TypeError | RegistryError string

definition is_digit :: "char \<Rightarrow> bool" where
  "is_digit c = (c \<in> set ''0123456789'')"

text \<open>The characters that \<open>.\<close> of a JavaScript pattern does not match (line terminators).\<close>

definition is_line_terminator :: "char \<Rightarrow> bool" where
  "is_line_terminator c = (c = CHR 0x0A \<or> c = CHR 0x0D)"

definition not_line_terminator :: "char \<Rightarrow> bool" where
  "not_line_terminator c = (\<not> is_line_terminator c)"

text \<open>
  The pieces of the pattern \<open>[0-9]+\.[0-9]+\.[0-9]+(-.+)?\<close> of \<open>updateRange\<close>, each
  tried at the start of a string and returning what it matched and the rest: \<open>[0-9]+\<close>,
  a literal character, and the group \<open>(-.+)\<close>.  Every quantifier is greedy; a shorter run
  of digits is never followed by the dot the pattern wants next, so the first attempt is the
  only one.
\<close>

definition digits1 :: "string \<Rightarrow> (string \<times> string) option" where
  "digits1 s = (if takeWhile is_digit s = [] then None
                else Some (takeWhile is_digit s, dropWhile is_digit s))"

definition lit :: "char \<Rightarrow> string \<Rightarrow> string option" where
  "lit c s = (case s of [] \<Rightarrow> None | x # r \<Rightarrow> if x = c then Some r else None)"

definition dash_tail :: "string \<Rightarrow> (string \<times> string) option" where
  "dash_tail s =
     (case s of [] \<Rightarrow> None
      | h # r \<Rightarrow>
          if h = CHR ''-'' \<and> takeWhile not_line_terminator r \<noteq> []
          then Some (h # takeWhile not_line_terminator r, dropWhile not_line_terminator r)
          else None)"

text \<open>The three dotted numbers \<open>[0-9]+\.[0-9]+\.[0-9]+\<close>.\<close>

definition triple_at :: "string \<Rightarrow> (string \<times> string) option" where
  "triple_at s =
     (case digits1 s of None \<Rightarrow> None | Some (a, s1) \<Rightarrow>
     (case lit (CHR ''.'') s1 of None \<Rightarrow> None | Some s2 \<Rightarrow>
     (case digits1 s2 of None \<Rightarrow> None | Some (b, s3) \<Rightarrow>
     (case lit (CHR ''.'') s3 of None \<Rightarrow> None | Some s4 \<Rightarrow>
     (case digits1 s4 of None \<Rightarrow> None | Some (c, s5) \<Rightarrow>
        Some (a @ ''.'' @ b @ ''.'' @ c, s5))))))"

text \<open>
  The whole pattern at the start of a string: the matched text, the text captured by
  group 1 (if the group took part) and the rest of the string.
\<close>

definition version_re_at :: "string \<Rightarrow> (string \<times> string option \<times> string) option" where
  "version_re_at s =
     (case triple_at s of None \<Rightarrow> None | Some (m, s5) \<Rightarrow>
     (case dash_tail s5 of
        None \<Rightarrow> Some (m, None, s5)
      | Some (t, rest) \<Rightarrow> Some (m @ t, Some t, rest)))"

text \<open>
  One call of the pattern's \<open>exec\<close>: the leftmost match in the string, with the text
  skipped before it.
\<close>

fun exec :: "string \<Rightarrow> (string \<times> string \<times> string option \<times> string) option" where
  "exec [] = None"
| "exec (c # cs) =
     (case version_re_at (c # cs) of
        Some (m, cap, rest) \<Rightarrow> Some ([], m, cap, rest)
      | None \<Rightarrow>
         (case exec cs of
            None \<Rightarrow> None
          | Some (skipped, m, cap, rest) \<Rightarrow> Some (c # skipped, m, cap, rest)))"

text \<open>
  The replacement text of \<open>String.prototype.replace\<close> for one match of a pattern with one
  capture group: \<open>$$\<close>, \<open>$&\<close>, \<open>$`\<close>, \<open>$'\<close>, \<open>$1\<close> and \<open>$01\<close> are expanded, any other
  \<open>$\<close> stands for itself.
\<close>

fun getSubstitution :: "string \<Rightarrow> string \<Rightarrow> string \<Rightarrow> string option \<Rightarrow> string \<Rightarrow> string" where
  "getSubstitution matched consumed after cap [] = []"
| "getSubstitution matched consumed after cap [c] = [c]"
| "getSubstitution matched consumed after cap (c # d # r) =
     (if c \<noteq> CHR ''$'' then c # getSubstitution matched consumed after cap (d # r)
      else if d = CHR ''$'' then CHR ''$'' # getSubstitution matched consumed after cap r
      else if d = CHR ''&'' then matched @ getSubstitution matched consumed after cap r
      else if d = CHR 0x60 then consumed @ getSubstitution matched consumed after cap r
      else if d = CHR 0x27 then after @ getSubstitution matched consumed after cap r
      else if d = CHR ''1'' then
        (case cap of None \<Rightarrow> [] | Some g \<Rightarrow> g) @ getSubstitution matched consumed after cap r
      else if d = CHR ''0'' \<and> r \<noteq> [] \<and> hd r = CHR ''1'' then
        (case cap of None \<Rightarrow> [] | Some g \<Rightarrow> g) @ getSubstitution matched consumed after cap (tl r)
      else c # getSubstitution matched consumed after cap (d # r))"

lemma span_iff:
  "(takeWhile P s = a \<and> dropWhile P s = r) \<longleftrightarrow>
   (s = a @ r \<and> (\<forall>x\<in>set a. P x) \<and> (r = [] \<or> \<not> P (hd r)))"
proof
  assume h: "takeWhile P s = a \<and> dropWhile P s = r"
  then have "s = a @ r" using takeWhile_dropWhile_id [of P s] by simp
  moreover have "\<forall>x\<in>set a. P x" using h by (auto dest: set_takeWhileD)
  moreover have "r = [] \<or> \<not> P (hd r)" using h hd_dropWhile [of P s] by auto
  ultimately show "s = a @ r \<and> (\<forall>x\<in>set a. P x) \<and> (r = [] \<or> \<not> P (hd r))" by simp
next
  assume h: "s = a @ r \<and> (\<forall>x\<in>set a. P x) \<and> (r = [] \<or> \<not> P (hd r))"
  then show "takeWhile P s = a \<and> dropWhile P s = r"
    by (cases r) (auto simp: takeWhile_append2 dropWhile_append2)
qed

lemma digits1_iff:
  "digits1 s = Some (a, r) \<longleftrightarrow>
   a \<noteq> [] \<and> s = a @ r \<and> (\<forall>x\<in>set a. is_digit x) \<and> (r = [] \<or> \<not> is_digit (hd r))"
  using span_iff [of is_digit s a r] by (auto simp: digits1_def)

lemma lit_iff: "lit c s = Some r \<longleftrightarrow> s = c # r"
  by (auto simp: lit_def split: list.splits)

lemma dash_tail_iff:
  "dash_tail s = Some (t, r) \<longleftrightarrow>
   (\<exists>u. t = CHR ''-'' # u \<and> u \<noteq> [] \<and> s = t @ r \<and> (\<forall>x\<in>set u. not_line_terminator x) \<and>
        (r = [] \<or> \<not> not_line_terminator (hd r)))"
proof (cases s)
  case Nil
  then show ?thesis by (auto simp: dash_tail_def)
next
  case (Cons h s6)
  show ?thesis
    using span_iff [of not_line_terminator s6 "tl t" r] Cons
    by (auto simp: dash_tail_def)
qed

lemma triple_at_iff:
  "triple_at s = Some (m, r) \<longleftrightarrow>
   (\<exists>a b c. m = a @ ''.'' @ b @ ''.'' @ c \<and> s = m @ r \<and>
      a \<noteq> [] \<and> b \<noteq> [] \<and> c \<noteq> [] \<and>
      (\<forall>x\<in>set a. is_digit x) \<and> (\<forall>x\<in>set b. is_digit x) \<and> (\<forall>x\<in>set c. is_digit x) \<and>
      (r = [] \<or> \<not> is_digit (hd r)))"
  (is "?L \<longleftrightarrow> ?R")
proof
  assume ?L
  then obtain a s1 where 1: "digits1 s = Some (a, s1)"
    by (auto simp: triple_at_def split: option.splits)
  with \<open>?L\<close> obtain s2 where 2: "lit (CHR ''.'') s1 = Some s2"
    by (auto simp: triple_at_def split: option.splits)
  with 1 \<open>?L\<close> obtain b s3 where 3: "digits1 s2 = Some (b, s3)"
    by (auto simp: triple_at_def split: option.splits)
  with 1 2 \<open>?L\<close> obtain s4 where 4: "lit (CHR ''.'') s3 = Some s4"
    by (auto simp: triple_at_def split: option.splits)
  with 1 2 3 \<open>?L\<close> obtain c where 5: "digits1 s4 = Some (c, r)" and m: "m = a @ ''.'' @ b @ ''.'' @ c"
    by (auto simp: triple_at_def split: option.splits)
  from 1 2 3 4 5 m show ?R
    unfolding digits1_iff lit_iff by auto
next
  assume ?R
  then obtain a b c where m: "m = a @ ''.'' @ b @ ''.'' @ c" and s: "s = m @ r"
    and ne: "a \<noteq> []" "b \<noteq> []" "c \<noteq> []"
    and dg: "\<forall>x\<in>set a. is_digit x" "\<forall>x\<in>set b. is_digit x" "\<forall>x\<in>set c. is_digit x"
    and r: "r = [] \<or> \<not> is_digit (hd r)"
    by blast
  have nd: "\<not> is_digit (CHR ''.'')" by (simp add: is_digit_def)
  have 1: "digits1 s = Some (a, ''.'' @ b @ ''.'' @ c @ r)"
    unfolding digits1_iff using m s ne dg nd by simp
  have 2: "lit (CHR ''.'') (''.'' @ b @ ''.'' @ c @ r) = Some (b @ ''.'' @ c @ r)"
    by (simp add: lit_iff)
  have 3: "digits1 (b @ ''.'' @ c @ r) = Some (b, ''.'' @ c @ r)"
    unfolding digits1_iff using ne dg nd by simp
  have 4: "lit (CHR ''.'') (''.'' @ c @ r) = Some (c @ r)"
    by (simp add: lit_iff)
  have 5: "digits1 (c @ r) = Some (c, r)"
    unfolding digits1_iff using ne dg r by simp
  show ?L
    unfolding triple_at_def using 1 2 3 4 5 m by simp
qed

lemma triple_at_split: "triple_at s = Some (m, r) \<Longrightarrow> s = m @ r \<and> m \<noteq> []"
  by (auto simp: triple_at_iff)

lemma version_re_at_split:
  assumes "version_re_at s = Some (m, cap, rest)"
  shows "s = m @ rest \<and> m \<noteq> []"
  using assms unfolding version_re_at_def
  by (auto split: option.splits prod.splits dest!: triple_at_split simp: dash_tail_iff)

lemma version_re_at_shorter:
  "version_re_at s = Some (m, cap, rest) \<Longrightarrow> length rest < length s"
  using version_re_at_split [of s m cap rest] by (cases m) auto

text \<open>
  \<open>String.prototype.replace\<close> with a global pattern: every match, leftmost first and
  each search starting where the previous match ended, is replaced by the expansion of
  the replacement text; the text between the matches is copied.  \<open>consumed\<close> is the part
  of the subject string already consumed (it is what \<open>$`\<close> expands to).
\<close>

function replace_global :: "string \<Rightarrow> string \<Rightarrow> string \<Rightarrow> string" where
  "replace_global consumed s replaceValue =
     (case exec s of
        None \<Rightarrow> s
      | Some (skipped, m, cap, rest) \<Rightarrow>
          skipped @ getSubstitution m (consumed @ skipped) rest cap replaceValue @
          replace_global (consumed @ skipped @ m) rest replaceValue)"
  by pat_completeness auto

lemma exec_shorter:
  "exec s = Some (skipped, m, cap, rest) \<Longrightarrow> length rest < length s"
proof (induction s arbitrary: skipped)
  case Nil
  then show ?case by simp
next
  case (Cons c cs)
  show ?case
  proof (cases "version_re_at (c # cs)")
    case None
    with Cons.prems obtain sk where "exec cs = Some (sk, m, cap, rest)"
      by (auto split: option.splits)
    from Cons.IH [OF this] show ?thesis by simp
  next
    case (Some r)
    with Cons.prems have "version_re_at (c # cs) = Some (m, cap, rest)"
      by (auto split: option.splits prod.splits)
    then show ?thesis by (rule version_re_at_shorter)
  qed
qed

termination replace_global
  by (relation "measure (\<lambda>(consumed, s, v). length s)") (auto dest: exec_shorter)

declare replace_global.simps [simp del]

text \<open>
  \<open>function updateRange(range, version)\<close>:
  \<open>range.replace(/[0-9]+\.[0-9]+\.[0-9]+(-.+)?/g, version)\<close>.
\<close>

definition updateRange :: "string \<Rightarrow> string \<Rightarrow> string" where
  "updateRange rng version = replace_global [] rng version"

text \<open>
  \<open>function isRangePrerelease(range)\<close>: the test of
  \<open>/[0-9]+\.[0-9]+\.[0-9]+-.+/\<close>, which is the pattern above with its group made
  mandatory: it matches somewhere in the range iff at some position the three dotted numbers
  are followed by the group.
\<close>

definition prerelease_re_at :: "string \<Rightarrow> bool" where
  "prerelease_re_at s =
     (case triple_at s of None \<Rightarrow> False | Some (m, s5) \<Rightarrow> dash_tail s5 \<noteq> None)"

fun isRangePrerelease :: "string \<Rightarrow> bool" where
  "isRangePrerelease [] = False"
| "isRangePrerelease (c # cs) = (prerelease_re_at (c # cs) \<or> isRangePrerelease cs)"

section \<open>The semver package\<close>

text \<open>
  updates.js calls \<open>parse\<close>, \<open>valid\<close>, \<open>coerce\<close>, \<open>diff\<close>, \<open>gt\<close> and \<open>gte\<close> of the semver
  package (version 6, in its default, strict mode).  The package is a dependency of the
  program and not part of its source; this section models the documented behaviour of
  these functions: the grammar of a version, the precedence order of semver.org, and the
  difference class of two versions.  The three numbers of a version are natural numbers not
  above \<open>MAX_SAFE_INTEGER\<close>, where a JavaScript number is exact.  A prerelease identifier is
  kept by the package as a number when it is made of digits and its value is below
  \<open>MAX_SAFE_INTEGER\<close> (\<open>Numeric\<close>), and as a string otherwise (\<open>Alphanumeric\<close>, also for
  a string of digits with a greater value).
\<close>

datatype ident = Numeric nat | Alphanumeric string

record SemVer =
  major :: nat
  minor :: nat
  patch :: nat
  prerelease :: "ident list"
  build :: "string list"

definition MAX_LENGTH :: nat where
  "MAX_LENGTH = 256"

definition MAX_SAFE_INTEGER :: nat where
  "MAX_SAFE_INTEGER = 9007199254740991"

definition MAX_SAFE_COMPONENT_LENGTH :: nat where
  "MAX_SAFE_COMPONENT_LENGTH = 16"

text \<open>Decimal numerals: \<open>String(n)\<close> and \<open>+s\<close> for a string of digits.\<close>

definition digit_char :: "nat \<Rightarrow> char" where
  "digit_char d = ''0123456789'' ! d"

definition digit_val :: "char \<Rightarrow> nat" where
  "digit_val c = of_char c - 48"

function string_of_nat :: "nat \<Rightarrow> string" where
  "string_of_nat n =
     (if n < 10 then [digit_char n] else string_of_nat (n div 10) @ [digit_char (n mod 10)])"
  by pat_completeness auto
termination
  by (relation "measure id") auto

declare string_of_nat.simps [simp del]

definition nat_of_string :: "string \<Rightarrow> nat" where
  "nat_of_string s = foldl (\<lambda>acc c. 10 * acc + digit_val c) 0 s"

text \<open>
  The Number value of \<open>+s\<close> for a string of digits of any length: the double nearest to
  its value, ties to the even significand of 53 bits.  Every value below \<open>2^53\<close> is
  exact; a string of at most 256 digits stays below the greatest double.
\<close>

function bit_length :: "nat \<Rightarrow> nat" where
  "bit_length n = (if n = 0 then 0 else Suc (bit_length (n div 2)))"
  by pat_completeness auto
termination
  by (relation "measure id") auto

declare bit_length.simps [simp del]

definition to_number :: "nat \<Rightarrow> nat" where
  "to_number n =
     (if n < 2 ^ 53 then n
      else (let k = bit_length n - 53;
                q = n div 2 ^ k;
                r = n mod 2 ^ k;
                half = 2 ^ (k - 1) in
            (if r > half \<or> (r = half \<and> q mod 2 = 1) then q + 1 else q) * 2 ^ k))"

text \<open>\<open>String.prototype.split\<close> with a separator of one character.\<close>

fun split :: "char \<Rightarrow> string \<Rightarrow> string list" where
  "split sep [] = [[]]"
| "split sep (x # xs) =
     (if x = sep then [] # split sep xs
      else (case split sep xs of [] \<Rightarrow> [[x]] | y # ys \<Rightarrow> (x # y) # ys))"

fun join :: "string \<Rightarrow> string list \<Rightarrow> string" where
  "join sep [] = []"
| "join sep [x] = x"
| "join sep (x # y # ys) = x @ sep @ join sep (y # ys)"

text \<open>White space removed by \<open>String.prototype.trim\<close>.\<close>

definition is_space :: "char \<Rightarrow> bool" where
  "is_space c = (c \<in> set [CHR 0x09, CHR 0x0A, CHR 0x0B, CHR 0x0C, CHR 0x0D, CHR 0x20, CHR 0xA0])"

definition trim :: "string \<Rightarrow> string" where
  "trim s = rev (dropWhile is_space (rev (dropWhile is_space s)))"

text \<open>
  The grammar of a version: \<open>NUMERICIDENTIFIER\<close> is \<open>0|[1-9]\d*\<close>,
  \<open>NONNUMERICIDENTIFIER\<close> is \<open>\d*[a-zA-Z-][a-zA-Z0-9-]*\<close>, \<open>BUILDIDENTIFIER\<close> is
  \<open>[0-9A-Za-z-]+\<close>.
\<close>

definition is_letter :: "char \<Rightarrow> bool" where
  "is_letter c =
     (c \<in> set ''abcdefghijklmnopqrstuvwxyz'' \<or> c \<in> set ''ABCDEFGHIJKLMNOPQRSTUVWXYZ'')"

definition is_idchar :: "char \<Rightarrow> bool" where
  "is_idchar c = (is_digit c \<or> is_letter c \<or> c = CHR ''-'')"

definition numeric_identifier :: "string \<Rightarrow> bool" where
  "numeric_identifier s = (s \<noteq> [] \<and> list_all is_digit s \<and> (s = ''0'' \<or> hd s \<noteq> CHR ''0''))"

definition nonnumeric_identifier :: "string \<Rightarrow> bool" where
  "nonnumeric_identifier s = (list_all is_idchar s \<and> \<not> list_all is_digit s)"

definition prerelease_identifier :: "string \<Rightarrow> bool" where
  "prerelease_identifier s = (numeric_identifier s \<or> nonnumeric_identifier s)"

definition build_identifier :: "string \<Rightarrow> bool" where
  "build_identifier s = (s \<noteq> [] \<and> list_all is_idchar s)"

text \<open>
  The pattern \<open>FULL\<close>,
  \<open>^v?(NUM)\.(NUM)\.(NUM)(?:-(PRE(?:\.PRE)*))?(?:\+(BUILD(?:\.BUILD)*))?$\<close>:
  the five groups of a match.  The identifiers contain neither \<open>.\<close> nor \<open>+\<close>, so the
  text after \<open>-\<close> is cut at the first \<open>+\<close> and each part at its dots.
\<close>

definition tail_groups :: "string \<Rightarrow> (string option \<times> string option) option" where
  "tail_groups s =
     (case s of
        [] \<Rightarrow> Some (None, None)
      | h # r \<Rightarrow>
          (if h = CHR ''+'' then
             (if list_all build_identifier (split (CHR ''.'') r) then Some (None, Some r) else None)
           else if h = CHR ''-'' then
             (let pre = takeWhile (\<lambda>c. c \<noteq> CHR ''+'') r;
                  after = dropWhile (\<lambda>c. c \<noteq> CHR ''+'') r in
              if \<not> list_all prerelease_identifier (split (CHR ''.'') pre) then None
              else (case after of
                      [] \<Rightarrow> Some (Some pre, None)
                    | p # b \<Rightarrow>
                        (if list_all build_identifier (split (CHR ''.'') b)
                         then Some (Some pre, Some b) else None)))
           else None))"

definition strip_v :: "string \<Rightarrow> string" where
  "strip_v s = (case s of [] \<Rightarrow> s | h # r \<Rightarrow> if h = CHR ''v'' then r else s)"

definition match_FULL ::
    "string \<Rightarrow> (string \<times> string \<times> string \<times> string option \<times> string option) option" where
  "match_FULL s =
     (case digits1 (strip_v s) of None \<Rightarrow> None | Some (a, s1) \<Rightarrow>
     (case lit (CHR ''.'') s1 of None \<Rightarrow> None | Some s2 \<Rightarrow>
     (case digits1 s2 of None \<Rightarrow> None | Some (b, s3) \<Rightarrow>
     (case lit (CHR ''.'') s3 of None \<Rightarrow> None | Some s4 \<Rightarrow>
     (case digits1 s4 of None \<Rightarrow> None | Some (c, s5) \<Rightarrow>
        (if \<not> (numeric_identifier a \<and> numeric_identifier b \<and> numeric_identifier c) then None
         else (case tail_groups s5 of
                 None \<Rightarrow> None
               | Some (pre, bld) \<Rightarrow> Some (a, b, c, pre, bld))))))))"

text \<open>
  \<open>new SemVer(version)\<close>: throws a TypeError when the argument is not a string, is too
  long, does not match \<open>FULL\<close> once trimmed, or has a number above \<open>MAX_SAFE_INTEGER\<close>.
\<close>

definition prerelease_id :: "string \<Rightarrow> ident" where
  "prerelease_id s =
     (if s \<noteq> [] \<and> list_all is_digit s \<and> nat_of_string s < MAX_SAFE_INTEGER
      then Numeric (nat_of_string s) else Alphanumeric s)"

definition prerelease_ids :: "string \<Rightarrow> ident list" where
  "prerelease_ids p = map prerelease_id (split (CHR ''.'') p)"

definition SemVer_new :: "string option \<Rightarrow> error + SemVer" where
  "SemVer_new version =
     (case version of
        None \<Rightarrow> Inl TypeError
      | Some v \<Rightarrow>
          (if length v > MAX_LENGTH then Inl TypeError
           else (case match_FULL (trim v) of
              None \<Rightarrow> Inl TypeError
            | Some (a, b, c, pre, bld) \<Rightarrow>
                (if nat_of_string a > MAX_SAFE_INTEGER \<or> nat_of_string b > MAX_SAFE_INTEGER \<or>
                    nat_of_string c > MAX_SAFE_INTEGER
                 then Inl TypeError
                 else Inr \<lparr> major = nat_of_string a, minor = nat_of_string b,
                            patch = nat_of_string c,
                            prerelease = (case pre of None \<Rightarrow> [] | Some p \<Rightarrow> prerelease_ids p),
                            build = (case bld of None \<Rightarrow> [] | Some b \<Rightarrow> split (CHR ''.'') b) \<rparr>))))"

text \<open>The field \<open>version\<close> of a SemVer object, set by its \<open>format()\<close>.\<close>

fun identifier_string :: "ident \<Rightarrow> string" where
  "identifier_string (Numeric n) = string_of_nat n"
| "identifier_string (Alphanumeric s) = s"

definition version_of :: "SemVer \<Rightarrow> string" where
  "version_of v =
     string_of_nat (major v) @ ''.'' @ string_of_nat (minor v) @ ''.'' @ string_of_nat (patch v) @
     (if prerelease v = [] then []
      else ''-'' @ join ''.'' (map identifier_string (prerelease v)))"

text \<open>
  \<open>semver.parse\<close>: \<open>null\<close> where the constructor would throw; the pattern is tested on
  the argument as it is, untrimmed.  \<open>semver.valid\<close> is the version of the parsed object.
\<close>

definition parse :: "string option \<Rightarrow> SemVer option" where
  "parse version =
     (case version of
        None \<Rightarrow> None
      | Some v \<Rightarrow>
          if length v > MAX_LENGTH then None
          else if match_FULL v = None then None
          else (case SemVer_new (Some v) of Inl e \<Rightarrow> None | Inr sv \<Rightarrow> Some sv))"

definition valid :: "string option \<Rightarrow> string option" where
  "valid version = (case parse version of None \<Rightarrow> None | Some sv \<Rightarrow> Some (version_of sv))"

text \<open>The test \<open>version => semver.valid(version)\<close> of a filter: the result is not \<open>null\<close>.\<close>

definition is_valid :: "string \<Rightarrow> bool" where
  "is_valid version = (valid (Some version) \<noteq> None)"

text \<open>
  Precedence.  \<open>compareIdentifiers(a, b)\<close> tests both identifiers with \<open>/^[0-9]+$/\<close>;
  when both are made of digits it converts them with \<open>+a\<close> and \<open>+b\<close> and compares the
  Number values, so that two strings of digits with the same nearest double compare as
  equal; otherwise digits come before other strings, and strings are compared by their
  code units.  \<open>compareMain\<close> on the three numbers, \<open>comparePre\<close> on the prerelease
  identifiers (a version with a prerelease comes before the one without; it steps over a
  pair of identifiers that are \<open>===\<close>, and returns \<open>compareIdentifiers\<close> of the first pair
  that are not), and \<open>compare\<close> is \<open>compareMain || comparePre\<close>.  The results are -1, 0
  and 1.
\<close>

fun string_less :: "string \<Rightarrow> string \<Rightarrow> bool" where
  "string_less [] [] = False"
| "string_less [] (y # ys) = True"
| "string_less (x # xs) [] = False"
| "string_less (x # xs) (y # ys) =
     ((of_char x :: nat) < of_char y \<or> (x = y \<and> string_less xs ys))"

definition compare_nat :: "nat \<Rightarrow> nat \<Rightarrow> int" where
  "compare_nat a b = (if a = b then 0 else if a < b then -1 else 1)"

definition numeric :: "string \<Rightarrow> bool" where
  "numeric s = (s \<noteq> [] \<and> list_all is_digit s)"

fun compareIdentifiers :: "ident \<Rightarrow> ident \<Rightarrow> int" where
  "compareIdentifiers (Numeric a) (Numeric b) = compare_nat a b"
| "compareIdentifiers (Numeric a) (Alphanumeric b) =
     (if numeric b then compare_nat a (to_number (nat_of_string b)) else -1)"
| "compareIdentifiers (Alphanumeric a) (Numeric b) =
     (if numeric a then compare_nat (to_number (nat_of_string a)) b else 1)"
| "compareIdentifiers (Alphanumeric a) (Alphanumeric b) =
     (if numeric a \<and> numeric b
      then compare_nat (to_number (nat_of_string a)) (to_number (nat_of_string b))
      else if a = b then 0
      else if numeric a then -1
      else if numeric b then 1
      else if string_less a b then -1 else 1)"

definition compareMain :: "SemVer \<Rightarrow> SemVer \<Rightarrow> int" where
  "compareMain a b =
     (if compare_nat (major a) (major b) \<noteq> 0 then compare_nat (major a) (major b)
      else if compare_nat (minor a) (minor b) \<noteq> 0 then compare_nat (minor a) (minor b)
      else compare_nat (patch a) (patch b))"

fun comparePre_loop :: "ident list \<Rightarrow> ident list \<Rightarrow> int" where
  "comparePre_loop [] [] = 0"
| "comparePre_loop (a # as) [] = 1"
| "comparePre_loop [] (b # bs) = -1"
| "comparePre_loop (a # as) (b # bs) =
     (if a = b then comparePre_loop as bs else compareIdentifiers a b)"

definition comparePre :: "SemVer \<Rightarrow> SemVer \<Rightarrow> int" where
  "comparePre a b =
     (if prerelease a \<noteq> [] \<and> prerelease b = [] then -1
      else if prerelease a = [] \<and> prerelease b \<noteq> [] then 1
      else if prerelease a = [] \<and> prerelease b = [] then 0
      else comparePre_loop (prerelease a) (prerelease b))"

definition compare_SemVer :: "SemVer \<Rightarrow> SemVer \<Rightarrow> int" where
  "compare_SemVer a b = (if compareMain a b \<noteq> 0 then compareMain a b else comparePre a b)"

text \<open>
  \<open>semver.compare(a, b)\<close> is \<open>new SemVer(a).compare(new SemVer(b))\<close>; \<open>gt\<close>, \<open>gte\<close> and
  \<open>eq\<close> test its sign.
\<close>

definition compare :: "string option \<Rightarrow> string option \<Rightarrow> error + int" where
  "compare a b =
     (case SemVer_new a of
        Inl e \<Rightarrow> Inl e
      | Inr x \<Rightarrow> (case SemVer_new b of Inl e \<Rightarrow> Inl e | Inr y \<Rightarrow> Inr (compare_SemVer x y)))"

definition gt :: "string option \<Rightarrow> string option \<Rightarrow> error + bool" where
  "gt a b = (case compare a b of Inl e \<Rightarrow> Inl e | Inr c \<Rightarrow> Inr (c > 0))"

definition gte :: "string option \<Rightarrow> string option \<Rightarrow> error + bool" where
  "gte a b = (case compare a b of Inl e \<Rightarrow> Inl e | Inr c \<Rightarrow> Inr (c \<ge> 0))"

definition eq :: "string option \<Rightarrow> string option \<Rightarrow> error + bool" where
  "eq a b = (case compare a b of Inl e \<Rightarrow> Inl e | Inr c \<Rightarrow> Inr (c = 0))"

text \<open>
  \<open>semver.diff(version1, version2)\<close>: \<open>null\<close> for equal versions; otherwise the first
  of major, minor and patch that differs, with the prefix \<open>pre\<close> when either version has
  a prerelease; \<open>prerelease\<close> when only the prereleases differ.  Reading a field of the
  \<open>null\<close> that \<open>parse\<close> returns is a TypeError.  A result that is \<open>undefined\<close> is
  modelled by \<open>None\<close>, as \<open>null\<close> is: the program only tests the result for truth.
\<close>

definition diff_SemVer :: "SemVer \<Rightarrow> SemVer \<Rightarrow> string option" where
  "diff_SemVer v1 v2 =
     (let pre = (prerelease v1 \<noteq> [] \<or> prerelease v2 \<noteq> []);
          prefix = (if pre then ''pre'' else []);
          defaultResult = (if pre then Some ''prerelease'' else None) in
      if major v1 \<noteq> major v2 then Some (prefix @ ''major'')
      else if minor v1 \<noteq> minor v2 then Some (prefix @ ''minor'')
      else if patch v1 \<noteq> patch v2 then Some (prefix @ ''patch'')
      else defaultResult)"

definition diff :: "string option \<Rightarrow> string option \<Rightarrow> error + string option" where
  "diff version1 version2 =
     (case eq version1 version2 of
        Inl e \<Rightarrow> Inl e
      | Inr True \<Rightarrow> Inr None
      | Inr False \<Rightarrow>
          (case parse version1 of
             None \<Rightarrow> Inl TypeError
           | Some v1 \<Rightarrow>
               (case parse version2 of
                  None \<Rightarrow> Inl TypeError
                | Some v2 \<Rightarrow> Inr (diff_SemVer v1 v2))))"

text \<open>
  \<open>semver.coerce(version)\<close>: the leftmost match of
  \<open>(^|[^\d])(\d{1,16})(?:\.(\d{1,16}))?(?:\.(\d{1,16}))?(?:$|[^\d])\<close>, parsed as
  \<open>m1.m2.m3\<close> with \<open>0\<close> for a missing group.  A run of more than 16 digits cannot take
  part in a match; a group is taken whenever a dot and a run of at most 16 digits follow.
\<close>

definition dot_component :: "string \<Rightarrow> (string \<times> string) option" where
  "dot_component s =
     (case lit (CHR ''.'') s of None \<Rightarrow> None | Some r \<Rightarrow>
     (case digits1 r of None \<Rightarrow> None | Some (d, rest) \<Rightarrow>
        (if length d \<le> MAX_SAFE_COMPONENT_LENGTH then Some (d, rest) else None)))"

definition coerce_groups :: "string \<Rightarrow> string \<Rightarrow> string \<times> string option \<times> string option" where
  "coerce_groups d r =
     (case dot_component r of
        None \<Rightarrow> (d, None, None)
      | Some (d2, r2) \<Rightarrow>
          (case dot_component r2 of
             None \<Rightarrow> (d, Some d2, None)
           | Some (d3, r3) \<Rightarrow> (d, Some d2, Some d3)))"

function coerce_match :: "string \<Rightarrow> (string \<times> string option \<times> string option) option" where
  "coerce_match s =
     (case digits1 (dropWhile (\<lambda>c. \<not> is_digit c) s) of
        None \<Rightarrow> None
      | Some (d, r) \<Rightarrow>
          (if length d \<le> MAX_SAFE_COMPONENT_LENGTH then Some (coerce_groups d r)
           else coerce_match r))"
  by pat_completeness auto

lemma digits1_shorter: "digits1 s = Some (d, r) \<Longrightarrow> length r < length s"
  by (cases d) (auto simp: digits1_iff)

termination coerce_match
proof (relation "measure length")
  show "wf (measure length)" by simp
next
  fix s :: string and x2 d r
  assume "digits1 (dropWhile (\<lambda>c. \<not> is_digit c) s) = Some x2" and "(d, r) = x2"
  then have "length r < length (dropWhile (\<lambda>c. \<not> is_digit c) s)"
    using digits1_shorter [of "dropWhile (\<lambda>c. \<not> is_digit c) s" d r] by simp
  also have "\<dots> \<le> length s" by (rule length_dropWhile_le)
  finally show "(r, s) \<in> measure length" by simp
qed

declare coerce_match.simps [simp del]

definition coerce :: "string \<Rightarrow> SemVer option" where
  "coerce version =
     (case coerce_match version of
        None \<Rightarrow> None
      | Some (m1, m2, m3) \<Rightarrow>
          parse (Some (m1 @ ''.'' @ (case m2 of None \<Rightarrow> ''0'' | Some x \<Rightarrow> x) @ ''.'' @
                       (case m3 of None \<Rightarrow> ''0'' | Some x \<Rightarrow> x))))"

section \<open>The version selection of updates.js\<close>

text \<open>
  The registry's answer for one package, as far as the program reads it: \<open>versions\<close> are
  the keys of \<open>data.versions\<close> in their order (\<open>Object.keys\<close>), \<open>dist_tags\<close> is
  \<open>data["dist-tags"]\<close>, \<open>time\<close> is \<open>data.time\<close> (absent on some registries) with each
  entry already converted by \<open>new Date(...).getTime()\<close>: a version without an entry, or
  with a date that does not parse, has the time NaN and no value here.  \<open>err\<close> is
  \<open>data.error\<close>.
\<close>

record metadata =
  name :: string
  versions :: "string list"
  dist_tags :: "(string \<rightharpoonup> string) option"
  time :: "(string \<rightharpoonup> int) option"
  err :: "string option"

record opts =
  usePre :: bool
  useRel :: bool
  useGreatest :: bool
  semvers :: "string list"
  range :: string

text \<open>\<open>function isVersionPrerelease(version)\<close>.\<close>

definition isVersionPrerelease :: "string option \<Rightarrow> bool" where
  "isVersionPrerelease version =
     (case parse version of None \<Rightarrow> False | Some parsed \<Rightarrow> prerelease parsed \<noteq> [])"

text \<open>
  \<open>function rangeToVersion(range)\<close>: \<open>semver.coerce(range).version\<close>, and \<open>null\<close> when
  reading the field of \<open>null\<close> throws.
\<close>

definition rangeToVersion :: "string \<Rightarrow> string option" where
  "rangeToVersion rng = (case coerce rng of None \<Rightarrow> None | Some v \<Rightarrow> Some (version_of v))"

text \<open>
  The list \<open>semvers\<close> of \<open>findVersion\<close> after its pushes, and its \<open>usePre\<close>.
\<close>

definition findVersion_usePre :: "opts \<Rightarrow> bool" where
  "findVersion_usePre opts = (isRangePrerelease (range opts) \<or> usePre opts)"

definition findVersion_semvers :: "opts \<Rightarrow> string list" where
  "findVersion_semvers opts =
     (if findVersion_usePre opts then
        (let s1 = semvers opts @ [''prerelease''];
             s2 = (if ''patch'' \<in> set s1 then s1 @ [''prepatch''] else s1);
             s3 = (if ''minor'' \<in> set s2 then s2 @ [''preminor''] else s2)
         in if ''major'' \<in> set s3 then s3 @ [''premajor''] else s3)
      else semvers opts)"

text \<open>
  One round of the loop of \<open>findVersion\<close> on the pair \<open>(tempVersion, tempDate)\<close>, in
  the program's order: the test on the prerelease of the parsed version, the test on the
  difference to \<open>tempVersion\<close>, and the choice, by greatest version (\<open>pick_greatest\<close>) or
  by publication time (\<open>pick_latest\<close>).
\<close>

definition skip_prerelease :: "opts \<Rightarrow> SemVer \<Rightarrow> bool" where
  "skip_prerelease opts parsed =
     (prerelease parsed \<noteq> [] \<and> (\<not> findVersion_usePre opts \<or> useRel opts))"

definition pick_greatest :: "string option \<times> int \<Rightarrow> SemVer \<Rightarrow> error + (string option \<times> int)" where
  "pick_greatest st parsed =
     (case coerce (version_of parsed) of
        None \<Rightarrow> Inl TypeError
      | Some c \<Rightarrow>
          (case gte (Some (version_of c)) (fst st) of
             Inl e \<Rightarrow> Inl e
           | Inr b \<Rightarrow> Inr (if b then (Some (version_of parsed), snd st) else st)))"

definition pick_latest ::
    "(string \<rightharpoonup> int) \<Rightarrow> string option \<times> int \<Rightarrow> string \<Rightarrow> SemVer \<Rightarrow> string option \<times> int" where
  "pick_latest tm st version parsed =
     (case tm version of
        None \<Rightarrow> st
      | Some date \<Rightarrow>
          (if date \<ge> 0 \<and> date > snd st then (Some (version_of parsed), date) else st))"

definition findVersion_step ::
    "metadata \<Rightarrow> opts \<Rightarrow> string option \<times> int \<Rightarrow> string \<Rightarrow> error + (string option \<times> int)" where
  "findVersion_step data opts st version =
     (case parse (Some version) of
        None \<Rightarrow> Inl TypeError
      | Some parsed \<Rightarrow>
          (if skip_prerelease opts parsed then Inr st
           else (case diff (fst st) (Some (version_of parsed)) of
              Inl e \<Rightarrow> Inl e
            | Inr d \<Rightarrow>
                (if d = None \<or> the d \<notin> set (findVersion_semvers opts) then Inr st
                 else if useGreatest opts \<or> time data = None then pick_greatest st parsed
                 else Inr (pick_latest (the (time data)) st version parsed)))))"

fun findVersion_loop ::
    "metadata \<Rightarrow> opts \<Rightarrow> string option \<times> int \<Rightarrow> string list \<Rightarrow> error + (string option \<times> int)" where
  "findVersion_loop data opts st [] = Inr st"
| "findVersion_loop data opts st (version # rest) =
     (case findVersion_step data opts st version of
        Inl e \<Rightarrow> Inl e
      | Inr st' \<Rightarrow> findVersion_loop data opts st' rest)"

text \<open>\<open>function findVersion(data, versions, opts)\<close>; it returns \<open>tempVersion || null\<close>.\<close>

definition findVersion :: "metadata \<Rightarrow> string list \<Rightarrow> opts \<Rightarrow> error + string option" where
  "findVersion data vs opts =
     (case findVersion_loop data opts (rangeToVersion (range opts), 0) vs of
        Inl e \<Rightarrow> Inl e
      | Inr (tempVersion, tempDate) \<Rightarrow>
          Inr (if tempVersion = Some [] then None else tempVersion))"

text \<open>\<open>diff.replace(/^pre/, "")\<close>.\<close>

definition strip_pre :: "string \<Rightarrow> string" where
  "strip_pre d = (if take 3 d = ''pre'' then drop 3 d else d)"

text \<open>\<open>function findNewVersion(data, opts)\<close>.\<close>

definition findNewVersion :: "metadata \<Rightarrow> opts \<Rightarrow> error + string option" where
  "findNewVersion data opts =
     (if range opts = ''*'' then Inr (Some ''*'')
      else (case findVersion data (filter is_valid (versions data)) opts of
         Inl e \<Rightarrow> Inl e
       | Inr version \<Rightarrow>
           (if useGreatest opts then Inr version
            else (case dist_tags data of
               None \<Rightarrow> Inl TypeError
             | Some tags \<Rightarrow>
                 (case coerce (range opts) of
                    None \<Rightarrow> Inl TypeError
                  | Some c \<Rightarrow>
                      (let latestTag = tags ''latest'';
                           oldVersion = Some (version_of c);
                           oldIsPre = isRangePrerelease (range opts);
                           newIsPre = isVersionPrerelease version
                       in (case gt version oldVersion of
                          Inl e \<Rightarrow> Inl e
                        | Inr isGreater \<Rightarrow>
                            (if (\<not> useRel opts \<and> usePre opts) \<or> (oldIsPre \<and> newIsPre)
                             then Inr version
                             else if useRel opts \<and> \<not> isGreater \<and> oldIsPre \<and> \<not> newIsPre
                             then Inr version
                             else if oldIsPre \<and> \<not> newIsPre \<and> isGreater
                             then Inr version
                             else if oldIsPre \<and> \<not> newIsPre \<and> \<not> isGreater
                             then Inr None
                             else (case diff oldVersion latestTag of
                                Inl e \<Rightarrow> Inl e
                              | Inr d \<Rightarrow>
                                  (if d \<noteq> None \<and> d \<noteq> Some ''prerelease'' \<and>
                                      strip_pre (the d) \<notin> set (semvers opts)
                                   then Inr version
                                   else if useRel opts \<and> isVersionPrerelease latestTag
                                   then Inr version
                                   else Inr latestTag))))))))))"

section \<open>The batch step of updates.js\<close>

text \<open>
  A command line argument after \<open>parseMixedArg\<close>: a boolean, or a list of package names.
  \<open>applies\<close> is the test the program makes on it for a package:
  \<open>typeof x === "boolean" ? x : x.includes(name)\<close>.
\<close>

datatype mixed = Flag bool | Names "string list"

definition applies :: "mixed \<Rightarrow> string \<Rightarrow> bool" where
  "applies m n = (case m of Flag b \<Rightarrow> b | Names ns \<Rightarrow> n \<in> set ns)"

record config =
  greatest_arg :: mixed
  prerelease_arg :: mixed
  release_arg :: mixed
  patch_arg :: mixed
  minor_arg :: mixed

text \<open>An entry of \<open>deps\<close>: \<open>{old, new, info}\<close>, the last two set by the batch step.\<close>

record dep =
  old :: string
  new :: "string option"
  info :: "string option"

definition semvers_for :: "config \<Rightarrow> string \<Rightarrow> string list" where
  "semvers_for cfg n =
     (if applies (patch_arg cfg) n then [''patch'']
      else if applies (minor_arg cfg) n then [''patch'', ''minor'']
      else [''patch'', ''minor'', ''major''])"

definition opts_for :: "config \<Rightarrow> string \<Rightarrow> string \<Rightarrow> opts" where
  "opts_for cfg n oldRange =
     \<lparr> usePre = applies (prerelease_arg cfg) n, useRel = applies (release_arg cfg) n,
       useGreatest = applies (greatest_arg cfg) n, semvers = semvers_for cfg n,
       range = oldRange \<rparr>"

text \<open>\<open>String(x)\<close> of a value that is a string or \<open>null\<close>, as \<open>replace\<close> converts its argument.\<close>

definition to_string :: "string option \<Rightarrow> string" where
  "to_string x = (case x of None \<Rightarrow> ''null'' | Some s \<Rightarrow> s)"

text \<open>
  The body of the loop over the registry's answers in the handler of \<open>Promise.all\<close>, for
  one answer \<open>[data, registry]\<close>, on the object \<open>deps\<close>.  \<open>getInfoUrl\<close> (which calls the
  hosted-git-info package) is a parameter.
\<close>

definition resolve_entry ::
    "config \<Rightarrow> (metadata \<Rightarrow> string \<Rightarrow> string \<Rightarrow> string) \<Rightarrow> (string \<rightharpoonup> dep) \<Rightarrow>
     metadata \<times> string \<Rightarrow> error + (string \<rightharpoonup> dep)" where
  "resolve_entry cfg getInfoUrl deps entry =
     (case entry of (data, registry) \<Rightarrow>
     (if err data \<noteq> None \<and> err data \<noteq> Some [] then Inl (RegistryError (the (err data)))
      else (case deps (name data) of
         None \<Rightarrow> Inl TypeError
       | Some d \<Rightarrow>
           (case findNewVersion data (opts_for cfg (name data) (old d)) of
              Inl e \<Rightarrow> Inl e
            | Inr newVersion \<Rightarrow>
                (let oldRange = old d;
                     newRange = updateRange oldRange (to_string newVersion)
                 in if newVersion = None \<or> newVersion = Some [] \<or> oldRange = newRange
                    then Inr (deps(name data := None))
                    else Inr (deps(name data \<mapsto>
                           d\<lparr> new := Some newRange,
                              info := Some (getInfoUrl data (the newVersion) registry) \<rparr>)))))))"

fun resolve_all ::
    "config \<Rightarrow> (metadata \<Rightarrow> string \<Rightarrow> string \<Rightarrow> string) \<Rightarrow> (string \<rightharpoonup> dep) \<Rightarrow>
     (metadata \<times> string) list \<Rightarrow> error + (string \<rightharpoonup> dep)" where
  "resolve_all cfg getInfoUrl deps [] = Inr deps"
| "resolve_all cfg getInfoUrl deps (entry # dati) =
     (case resolve_entry cfg getInfoUrl deps entry of
        Inl e \<Rightarrow> Inl e
      | Inr deps' \<Rightarrow> resolve_all cfg getInfoUrl deps' dati)"

section \<open>Properties of the batch step\<close>

lemma exec_no_digit: "\<forall>c\<in>set s. \<not> is_digit c \<Longrightarrow> exec s = None"
proof (induction s)
  case Nil
  then show ?case by simp
next
  case (Cons c cs)
  then have "takeWhile is_digit (c # cs) = []" by simp
  then have "version_re_at (c # cs) = None"
    by (simp add: version_re_at_def triple_at_def digits1_def)
  with Cons show ?case by simp
qed

lemma resolve_entry_absent:
  assumes "resolve_entry cfg getInfoUrl deps entry = Inr deps'" and "deps n = None"
  shows "deps' n = None"
proof -
  obtain data registry where e: "entry = (data, registry)" by (cases entry)
  from assms e have "name data \<noteq> n"
    by (auto simp: resolve_entry_def split: if_splits option.splits)
  with assms e show ?thesis
    by (auto simp: resolve_entry_def Let_def split: if_splits option.splits sum.splits)
qed

lemma resolve_all_absent:
  "resolve_all cfg getInfoUrl deps dati = Inr deps' \<Longrightarrow> deps n = None \<Longrightarrow> deps' n = None"
proof (induction dati arbitrary: deps)
  case Nil
  then show ?case by simp
next
  case (Cons entry dati)
  then obtain deps1 where 1: "resolve_entry cfg getInfoUrl deps entry = Inr deps1"
    and 2: "resolve_all cfg getInfoUrl deps1 dati = Inr deps'"
    by (auto split: sum.splits)
  from resolve_entry_absent [OF 1 Cons.prems(2)] have "deps1 n = None" .
  with Cons.IH [OF 2] show ?case .
qed

text \<open>
  C6.  When the old range of a dependency is \<open>*\<close>, whatever the policy and the published
  versions: \<open>findNewVersion\<close> returns \<open>*\<close>, the rewritten range is the old range, the
  batch step deletes the entry, and the entry is absent from the result of every batch that
  goes on from there.
\<close>

theorem wildcard_is_no_change:
  assumes "deps (name data) = Some d" and "old d = ''*''"
    and "err data = None \<or> err data = Some []"
  shows "findNewVersion data (opts_for cfg (name data) (old d)) = Inr (Some ''*'') \<and>
     updateRange (old d) ''*'' = old d \<and>
     resolve_entry cfg getInfoUrl deps (data, registry) = Inr (deps(name data := None)) \<and>
     (\<forall>dati deps'. resolve_all cfg getInfoUrl deps ((data, registry) # dati) = Inr deps'
        \<longrightarrow> deps' (name data) = None)"
proof -
  have 1: "findNewVersion data (opts_for cfg (name data) (old d)) = Inr (Some ''*'')"
    using assms by (simp add: findNewVersion_def opts_for_def)
  have "exec ''*'' = None"
    by (rule exec_no_digit) (simp add: is_digit_def)
  then have 2: "updateRange ''*'' ''*'' = ''*''"
    by (simp add: updateRange_def replace_global.simps)
  have 3: "resolve_entry cfg getInfoUrl deps (data, registry) = Inr (deps(name data := None))"
    using 1 2 assms by (auto simp: resolve_entry_def to_string_def)
  have 4: "deps' (name data) = None"
    if "resolve_all cfg getInfoUrl deps ((data, registry) # dati) = Inr deps'" for dati deps'
  proof -
    from that 3 have "resolve_all cfg getInfoUrl (deps(name data := None)) dati = Inr deps'"
      by simp
    then show ?thesis by (rule resolve_all_absent) simp
  qed
  show ?thesis using 1 2 3 4 assms by simp
qed

theorem wildcard_is_no_change_witness:
  "findNewVersion
     \<lparr> name = ''pkg'', versions = [''1.0.0'', ''2.0.0''],
       dist_tags = Some [''latest'' \<mapsto> ''2.0.0''], time = None, err = None \<rparr>
     (opts_for \<lparr> greatest_arg = Flag False, prerelease_arg = Flag True,
                 release_arg = Flag False, patch_arg = Flag False, minor_arg = Flag False \<rparr>
        ''pkg'' ''*'') = Inr (Some ''*'') \<and>
   updateRange ''*'' ''*'' = ''*'' \<and>
   resolve_entry
     \<lparr> greatest_arg = Flag False, prerelease_arg = Flag True,
       release_arg = Flag False, patch_arg = Flag False, minor_arg = Flag False \<rparr>
     (\<lambda>data version registry. [])
     [''pkg'' \<mapsto> \<lparr> old = ''*'', new = None, info = None \<rparr>]
     (\<lparr> name = ''pkg'', versions = [''1.0.0'', ''2.0.0''],
        dist_tags = Some [''latest'' \<mapsto> ''2.0.0''], time = None, err = None \<rparr>,
      ''https://registry.npmjs.org'')
   = Inr Map.empty"
  using wildcard_is_no_change
    [of "[''pkg'' \<mapsto> \<lparr> old = ''*'', new = None, info = None \<rparr>]"
        "\<lparr> name = ''pkg'', versions = [''1.0.0'', ''2.0.0''],
           dist_tags = Some [''latest'' \<mapsto> ''2.0.0''], time = None, err = None \<rparr>"
        "\<lparr> old = ''*'', new = None, info = None \<rparr>"
        "\<lparr> greatest_arg = Flag False, prerelease_arg = Flag True,
           release_arg = Flag False, patch_arg = Flag False, minor_arg = Flag False \<rparr>"
        "\<lambda>data version registry. []" "''https://registry.npmjs.org''"]
  by simp

section \<open>Properties of the selection\<close>

lemma findVersion_step_dist_tags:
  "findVersion_step (data\<lparr>dist_tags := t\<rparr>) opts st v = findVersion_step data opts st v"
  by (simp add: findVersion_step_def cong: option.case_cong sum.case_cong if_cong)

lemma findVersion_loop_dist_tags:
  "findVersion_loop (data\<lparr>dist_tags := t\<rparr>) opts st vs = findVersion_loop data opts st vs"
  by (induction vs arbitrary: st) (simp_all add: findVersion_step_dist_tags split: sum.splits)

text \<open>
  C10.  When \<open>useGreatest\<close> holds for the package and the range is not \<open>*\<close>,
  \<open>findNewVersion\<close> returns what \<open>findVersion\<close> returns on the valid versions (a thrown
  error included), and the result is the same for two answers of the registry that differ
  only in their dist-tags.
\<close>

theorem greatest_ignores_dist_tags:
  assumes "useGreatest opts" and "range opts \<noteq> ''*''"
  shows "findNewVersion data opts =
           findVersion data (filter is_valid (versions data)) opts \<and>
         findNewVersion (data\<lparr>dist_tags := t1\<rparr>) opts =
           findNewVersion (data\<lparr>dist_tags := t2\<rparr>) opts"
proof -
  have a: "findNewVersion x opts =
      findVersion x (filter is_valid (versions x)) opts" for x
    using assms by (simp add: findNewVersion_def split: sum.splits)
  have b: "findVersion (data\<lparr>dist_tags := t\<rparr>) vs opts = findVersion data vs opts" for t vs
    by (simp add: findVersion_def findVersion_loop_dist_tags)
  show ?thesis by (simp add: a b)
qed

theorem greatest_ignores_dist_tags_witness:
  "findNewVersion
     \<lparr> name = ''pkg'', versions = [''1.2.3'', ''1.3.0'', ''2.0.0'', ''3.0.0-rc.1''],
       dist_tags = Some [''latest'' \<mapsto> ''2.0.0''], time = None, err = None \<rparr>
     \<lparr> usePre = False, useRel = False, useGreatest = True,
       semvers = [''patch'', ''minor''], range = ''^1.2.3'' \<rparr> = Inr (Some ''1.3.0'') \<and>
   findNewVersion
     (\<lparr> name = ''pkg'', versions = [''1.2.3'', ''1.3.0'', ''2.0.0'', ''3.0.0-rc.1''],
        dist_tags = Some [''latest'' \<mapsto> ''2.0.0''], time = None, err = None \<rparr>
      \<lparr> dist_tags := None \<rparr>)
     \<lparr> usePre = False, useRel = False, useGreatest = True,
       semvers = [''patch'', ''minor''], range = ''^1.2.3'' \<rparr> = Inr (Some ''1.3.0'')"
proof -
  let ?tags = "Some [''latest'' \<mapsto> ''2.0.0'']"
  let ?data = "\<lparr> name = ''pkg'', versions = [''1.2.3'', ''1.3.0'', ''2.0.0'', ''3.0.0-rc.1''],
       dist_tags = ?tags, time = None, err = None \<rparr>"
  let ?opts = "\<lparr> usePre = False, useRel = False, useGreatest = True,
       semvers = [''patch'', ''minor''], range = ''^1.2.3'' \<rparr>"
  have h1: "useGreatest ?opts" by simp
  have h2: "range ?opts \<noteq> ''*''" by simp
  have v: "findVersion ?data (filter is_valid (versions ?data)) ?opts = Inr (Some ''1.3.0'')"
    by code_simp
  have same: "?data\<lparr>dist_tags := ?tags\<rparr> = ?data" by simp
  from greatest_ignores_dist_tags [OF h1 h2, of ?data ?tags None]
  have a: "findNewVersion ?data ?opts = findVersion ?data (filter is_valid (versions ?data)) ?opts"
    and b: "findNewVersion (?data\<lparr>dist_tags := ?tags\<rparr>) ?opts =
            findNewVersion (?data\<lparr>dist_tags := None\<rparr>) ?opts"
    by blast+
  from a v have c: "findNewVersion ?data ?opts = Inr (Some ''1.3.0'')" by (rule trans)
  from b same have "findNewVersion ?data ?opts = findNewVersion (?data\<lparr>dist_tags := None\<rparr>) ?opts"
    by (simp only:)
  with c have "findNewVersion (?data\<lparr>dist_tags := None\<rparr>) ?opts = Inr (Some ''1.3.0'')"
    by (simp only:)
  with c show ?thesis by (rule conjI)
qed


section \<open>The two scenarios of the specification\<close>

lemma findVersion_step_skip:
  assumes "parse (Some v) = Some p"
    and "skip_prerelease opts p \<or> diff (fst st) (Some (version_of p)) = Inr None \<or>
         (\<exists>d. diff (fst st) (Some (version_of p)) = Inr (Some d) \<and> d \<notin> set (findVersion_semvers opts))"
  shows "findVersion_step data opts st v = Inr st"
  using assms by (auto simp: findVersion_step_def)

lemma findVersion_step_pick:
  assumes "parse (Some v) = Some p" and "\<not> skip_prerelease opts p"
    and "diff (fst st) (Some (version_of p)) = Inr (Some d)"
    and "d \<in> set (findVersion_semvers opts)"
  shows "findVersion_step data opts st v =
     (if useGreatest opts \<or> time data = None then pick_greatest st p
      else Inr (pick_latest (the (time data)) st v p))"
  using assms by (simp add: findVersion_step_def)

lemma pick_greatest_take:
  assumes "coerce (version_of p) = Some c" and "gte (Some (version_of c)) (Some t) = Inr True"
  shows "pick_greatest (Some t, dt) p = Inr (Some (version_of p), dt)"
  using assms by (simp add: pick_greatest_def)

lemma semvers_minor_ceiling:
  assumes "semvers opts = [''patch'', ''minor'']"
  shows "''patch'' \<in> set (findVersion_semvers opts)" and "''minor'' \<in> set (findVersion_semvers opts)"
    and "''major'' \<notin> set (findVersion_semvers opts)"
  using assms by (simp_all add: findVersion_semvers_def Let_def)

definition release :: "nat \<Rightarrow> nat \<Rightarrow> nat \<Rightarrow> SemVer" where
  "release a b c = \<lparr> major = a, minor = b, patch = c, prerelease = [], build = [] \<rparr>"

lemma pick_greatest_keep:
  assumes "coerce (version_of p) = Some c" and "gte (Some (version_of c)) (Some t) = Inr False"
  shows "pick_greatest (Some t, dt) p = Inr (Some t, dt)"
  using assms by (simp add: pick_greatest_def)

text \<open>
  The choice by publication time, for a version whose text is its own canonical form: it
  replaces the candidate when its time is valid and after \<open>tempDate\<close>.
\<close>

definition by_time :: "metadata \<Rightarrow> string option \<times> int \<Rightarrow> string \<Rightarrow> string option \<times> int" where
  "by_time data st x =
     (case the (time data) x of
        None \<Rightarrow> st
      | Some date \<Rightarrow> if date \<ge> 0 \<and> date > snd st then (Some x, date) else st)"

text \<open>One round of the loop, for each candidate and each version of the scenario.\<close>

lemma minor_ceiling_steps:
  assumes sv: "semvers opts = [''patch'', ''minor'']"
  shows "findVersion_step data opts (Some ''1.2.3'', dt) ''1.2.3'' = Inr (Some ''1.2.3'', dt)"
    and "findVersion_step data opts (Some ''1.2.9'', dt) ''1.2.9'' = Inr (Some ''1.2.9'', dt)"
    and "findVersion_step data opts (Some ''1.3.0'', dt) ''1.3.0'' = Inr (Some ''1.3.0'', dt)"
    and "findVersion_step data opts (Some ''1.2.3'', dt) ''2.0.0'' = Inr (Some ''1.2.3'', dt)"
    and "findVersion_step data opts (Some ''1.2.9'', dt) ''2.0.0'' = Inr (Some ''1.2.9'', dt)"
    and "findVersion_step data opts (Some ''1.3.0'', dt) ''2.0.0'' = Inr (Some ''1.3.0'', dt)"
    and "findVersion_step data opts (Some ''1.2.3'', dt) ''1.2.9'' =
      Inr (if useGreatest opts \<or> time data = None then (Some ''1.2.9'', dt)
           else by_time data (Some ''1.2.3'', dt) ''1.2.9'')"
    and "findVersion_step data opts (Some ''1.2.3'', dt) ''1.3.0'' =
      Inr (if useGreatest opts \<or> time data = None then (Some ''1.3.0'', dt)
           else by_time data (Some ''1.2.3'', dt) ''1.3.0'')"
    and "findVersion_step data opts (Some ''1.2.9'', dt) ''1.3.0'' =
      Inr (if useGreatest opts \<or> time data = None then (Some ''1.3.0'', dt)
           else by_time data (Some ''1.2.9'', dt) ''1.3.0'')"
    and "findVersion_step data opts (Some ''1.2.9'', dt) ''1.2.3'' =
      Inr (if useGreatest opts \<or> time data = None then (Some ''1.2.9'', dt)
           else by_time data (Some ''1.2.9'', dt) ''1.2.3'')"
    and "findVersion_step data opts (Some ''1.3.0'', dt) ''1.2.3'' =
      Inr (if useGreatest opts \<or> time data = None then (Some ''1.3.0'', dt)
           else by_time data (Some ''1.3.0'', dt) ''1.2.3'')"
    and "findVersion_step data opts (Some ''1.3.0'', dt) ''1.2.9'' =
      Inr (if useGreatest opts \<or> time data = None then (Some ''1.3.0'', dt)
           else by_time data (Some ''1.3.0'', dt) ''1.2.9'')"
  supply [simp del] = One_nat_def
proof -
  have p: "parse (Some ''1.2.3'') = Some (release 1 2 3)" "parse (Some ''1.2.9'') = Some (release 1 2 9)"
    "parse (Some ''1.3.0'') = Some (release 1 3 0)" "parse (Some ''2.0.0'') = Some (release 2 0 0)"
    by code_simp+
  have f: "version_of (release 1 2 3) = ''1.2.3''" "version_of (release 1 2 9) = ''1.2.9''"
    "version_of (release 1 3 0) = ''1.3.0''" "version_of (release 2 0 0) = ''2.0.0''"
    by code_simp+
  have ns: "\<not> skip_prerelease opts (release a b c)" for a b c
    by (simp add: skip_prerelease_def release_def)
  have d0: "diff (Some ''1.2.3'') (Some ''1.2.3'') = Inr None"
    "diff (Some ''1.2.9'') (Some ''1.2.9'') = Inr None"
    "diff (Some ''1.3.0'') (Some ''1.3.0'') = Inr None"
    by code_simp+
  have d2: "diff (Some ''1.2.3'') (Some ''2.0.0'') = Inr (Some ''major'')"
    "diff (Some ''1.2.9'') (Some ''2.0.0'') = Inr (Some ''major'')"
    "diff (Some ''1.3.0'') (Some ''2.0.0'') = Inr (Some ''major'')"
    by code_simp+
  have d: "diff (Some ''1.2.3'') (Some ''1.2.9'') = Inr (Some ''patch'')"
    "diff (Some ''1.2.3'') (Some ''1.3.0'') = Inr (Some ''minor'')"
    "diff (Some ''1.2.9'') (Some ''1.3.0'') = Inr (Some ''minor'')"
    "diff (Some ''1.2.9'') (Some ''1.2.3'') = Inr (Some ''patch'')"
    "diff (Some ''1.3.0'') (Some ''1.2.3'') = Inr (Some ''minor'')"
    "diff (Some ''1.3.0'') (Some ''1.2.9'') = Inr (Some ''minor'')"
    by code_simp+
  have c: "coerce ''1.2.3'' = Some (release 1 2 3)" "coerce ''1.2.9'' = Some (release 1 2 9)"
    "coerce ''1.3.0'' = Some (release 1 3 0)"
    by code_simp+
  have g: "gte (Some ''1.2.9'') (Some ''1.2.3'') = Inr True"
    "gte (Some ''1.3.0'') (Some ''1.2.3'') = Inr True"
    "gte (Some ''1.3.0'') (Some ''1.2.9'') = Inr True"
    "gte (Some ''1.2.3'') (Some ''1.2.9'') = Inr False"
    "gte (Some ''1.2.3'') (Some ''1.3.0'') = Inr False"
    "gte (Some ''1.2.9'') (Some ''1.3.0'') = Inr False"
    by code_simp+
  note sm = semvers_minor_ceiling [OF sv]
  show "findVersion_step data opts (Some ''1.2.3'', dt) ''1.2.3'' = Inr (Some ''1.2.3'', dt)"
    by (rule findVersion_step_skip [OF p(1)]) (simp add: f d0)
  show "findVersion_step data opts (Some ''1.2.9'', dt) ''1.2.9'' = Inr (Some ''1.2.9'', dt)"
    by (rule findVersion_step_skip [OF p(2)]) (simp add: f d0)
  show "findVersion_step data opts (Some ''1.3.0'', dt) ''1.3.0'' = Inr (Some ''1.3.0'', dt)"
    by (rule findVersion_step_skip [OF p(3)]) (simp add: f d0)
  show "findVersion_step data opts (Some ''1.2.3'', dt) ''2.0.0'' = Inr (Some ''1.2.3'', dt)"
    by (rule findVersion_step_skip [OF p(4)]) (simp add: f d2 sm)
  show "findVersion_step data opts (Some ''1.2.9'', dt) ''2.0.0'' = Inr (Some ''1.2.9'', dt)"
    by (rule findVersion_step_skip [OF p(4)]) (simp add: f d2 sm)
  show "findVersion_step data opts (Some ''1.3.0'', dt) ''2.0.0'' = Inr (Some ''1.3.0'', dt)"
    by (rule findVersion_step_skip [OF p(4)]) (simp add: f d2 sm)
  have take: "pick_greatest (Some t, dt) (release a b c') = Inr (Some (version_of (release a b c')), dt)"
    if "coerce (version_of (release a b c')) = Some (release a b c')"
      and "gte (Some (version_of (release a b c'))) (Some t) = Inr True" for t a b c'
    using that by (rule pick_greatest_take)
  have keep: "pick_greatest (Some t, dt) (release a b c') = Inr (Some t, dt)"
    if "coerce (version_of (release a b c')) = Some (release a b c')"
      and "gte (Some (version_of (release a b c'))) (Some t) = Inr False" for t a b c'
    using that by (rule pick_greatest_keep)
  have lt: "pick_latest (the (time data)) (Some t, dt) x (release a b c') = by_time data (Some t, dt) x"
    if "version_of (release a b c') = x" for t x a b c'
    using that by (auto simp: pick_latest_def by_time_def split: option.splits)
  show "findVersion_step data opts (Some ''1.2.3'', dt) ''1.2.9'' =
      Inr (if useGreatest opts \<or> time data = None then (Some ''1.2.9'', dt)
           else by_time data (Some ''1.2.3'', dt) ''1.2.9'')"
    using findVersion_step_pick [OF p(2) ns _ sm(1), of "(Some ''1.2.3'', dt)" data]
      take [of 1 2 9 "''1.2.3''"] lt [of 1 2 9 "''1.2.9''" "''1.2.3''"]
    by (simp add: f d c g)
  show "findVersion_step data opts (Some ''1.2.3'', dt) ''1.3.0'' =
      Inr (if useGreatest opts \<or> time data = None then (Some ''1.3.0'', dt)
           else by_time data (Some ''1.2.3'', dt) ''1.3.0'')"
    using findVersion_step_pick [OF p(3) ns _ sm(2), of "(Some ''1.2.3'', dt)" data]
      take [of 1 3 0 "''1.2.3''"] lt [of 1 3 0 "''1.3.0''" "''1.2.3''"]
    by (simp add: f d c g)
  show "findVersion_step data opts (Some ''1.2.9'', dt) ''1.3.0'' =
      Inr (if useGreatest opts \<or> time data = None then (Some ''1.3.0'', dt)
           else by_time data (Some ''1.2.9'', dt) ''1.3.0'')"
    using findVersion_step_pick [OF p(3) ns _ sm(2), of "(Some ''1.2.9'', dt)" data]
      take [of 1 3 0 "''1.2.9''"] lt [of 1 3 0 "''1.3.0''" "''1.2.9''"]
    by (simp add: f d c g)
  show "findVersion_step data opts (Some ''1.2.9'', dt) ''1.2.3'' =
      Inr (if useGreatest opts \<or> time data = None then (Some ''1.2.9'', dt)
           else by_time data (Some ''1.2.9'', dt) ''1.2.3'')"
    using findVersion_step_pick [OF p(1) ns _ sm(1), of "(Some ''1.2.9'', dt)" data]
      keep [of 1 2 3 "''1.2.9''"] lt [of 1 2 3 "''1.2.3''" "''1.2.9''"]
    by (simp add: f d c g)
  show "findVersion_step data opts (Some ''1.3.0'', dt) ''1.2.3'' =
      Inr (if useGreatest opts \<or> time data = None then (Some ''1.3.0'', dt)
           else by_time data (Some ''1.3.0'', dt) ''1.2.3'')"
    using findVersion_step_pick [OF p(1) ns _ sm(2), of "(Some ''1.3.0'', dt)" data]
      keep [of 1 2 3 "''1.3.0''"] lt [of 1 2 3 "''1.2.3''" "''1.3.0''"]
    by (simp add: f d c g)
  show "findVersion_step data opts (Some ''1.3.0'', dt) ''1.2.9'' =
      Inr (if useGreatest opts \<or> time data = None then (Some ''1.3.0'', dt)
           else by_time data (Some ''1.3.0'', dt) ''1.2.9'')"
    using findVersion_step_pick [OF p(2) ns _ sm(2), of "(Some ''1.3.0'', dt)" data]
      keep [of 1 2 9 "''1.3.0''"] lt [of 1 2 9 "''1.2.9''" "''1.3.0''"]
    by (simp add: f d c g)
qed


text \<open>
  What holds of \<open>(tempVersion, tempDate)\<close> during the loop on the versions of the scenario,
  in any order: the candidate is 1.3.0 (with its publication time, when the choice goes by
  time), or it is 1.2.3 or 1.2.9 (with a time before that of 1.3.0).  \<open>g\<close> says that the
  choice goes by greatest version.
\<close>

definition minor_ceiling_inv :: "bool \<Rightarrow> int \<Rightarrow> string option \<times> int \<Rightarrow> bool" where
  "minor_ceiling_inv g t30 st =
     ((fst st = Some ''1.3.0'' \<and> (\<not> g \<longrightarrow> snd st = t30)) \<or>
      ((fst st = Some ''1.2.3'' \<or> fst st = Some ''1.2.9'') \<and> (\<not> g \<longrightarrow> snd st < t30)))"

lemma minor_ceiling_step:
  assumes sv: "semvers opts = [''patch'', ''minor'']"
    and tm: "useGreatest opts \<or> time data = None \<or>
      (the (time data) ''1.3.0'' = Some t30 \<and> 0 < t30 \<and>
       (\<forall>t. the (time data) ''1.2.3'' = Some t \<longrightarrow> t < t30) \<and>
       (\<forall>t. the (time data) ''1.2.9'' = Some t \<longrightarrow> t < t30))"
    and inv: "minor_ceiling_inv (useGreatest opts \<or> time data = None) t30 st"
    and x: "x = ''1.2.3'' \<or> x = ''1.2.9'' \<or> x = ''1.3.0'' \<or> x = ''2.0.0''"
  shows "\<exists>st'. findVersion_step data opts st x = Inr st' \<and>
     minor_ceiling_inv (useGreatest opts \<or> time data = None) t30 st' \<and>
     (fst st = Some ''1.3.0'' \<or> x = ''1.3.0'' \<longrightarrow> fst st' = Some ''1.3.0'')"
proof (cases st)
  case (Pair a dt)
  note s = minor_ceiling_steps [OF sv]
  let ?g = "useGreatest opts \<or> time data = None"
  from inv Pair consider
      (v30) "a = Some ''1.3.0''" "\<not> ?g \<longrightarrow> dt = t30"
    | (v23) "a = Some ''1.2.3''" "\<not> ?g \<longrightarrow> dt < t30"
    | (v29) "a = Some ''1.2.9''" "\<not> ?g \<longrightarrow> dt < t30"
    unfolding minor_ceiling_inv_def by fastforce
  then show ?thesis
  proof cases
    case v30
    from x show ?thesis
    proof (elim disjE)
      assume "x = ''1.2.3''"
      then show ?thesis using v30 tm unfolding Pair
        by (cases ?g) (auto simp: s(11) minor_ceiling_inv_def by_time_def split: option.splits)
    next
      assume "x = ''1.2.9''"
      then show ?thesis using v30 tm unfolding Pair
        by (cases ?g) (auto simp: s(12) minor_ceiling_inv_def by_time_def split: option.splits)
    next
      assume "x = ''1.3.0''"
      then show ?thesis using v30 unfolding Pair
        by (simp add: s(3) minor_ceiling_inv_def)
    next
      assume "x = ''2.0.0''"
      then show ?thesis using v30 unfolding Pair
        by (simp add: s(6) minor_ceiling_inv_def)
    qed
  next
    case v23
    from x show ?thesis
    proof (elim disjE)
      assume "x = ''1.2.3''"
      then show ?thesis using v23 unfolding Pair
        by (simp add: s(1) minor_ceiling_inv_def)
    next
      assume "x = ''1.2.9''"
      then show ?thesis using v23 tm unfolding Pair
        by (cases ?g) (auto simp: s(7) minor_ceiling_inv_def by_time_def split: option.splits)
    next
      assume "x = ''1.3.0''"
      then show ?thesis using v23 tm unfolding Pair
        by (cases ?g) (auto simp: s(8) minor_ceiling_inv_def by_time_def split: option.splits)
    next
      assume "x = ''2.0.0''"
      then show ?thesis using v23 unfolding Pair
        by (simp add: s(4) minor_ceiling_inv_def)
    qed
  next
    case v29
    from x show ?thesis
    proof (elim disjE)
      assume "x = ''1.2.3''"
      then show ?thesis using v29 tm unfolding Pair
        by (cases ?g) (auto simp: s(10) minor_ceiling_inv_def by_time_def split: option.splits)
    next
      assume "x = ''1.2.9''"
      then show ?thesis using v29 unfolding Pair
        by (simp add: s(2) minor_ceiling_inv_def)
    next
      assume "x = ''1.3.0''"
      then show ?thesis using v29 tm unfolding Pair
        by (cases ?g) (auto simp: s(9) minor_ceiling_inv_def by_time_def split: option.splits)
    next
      assume "x = ''2.0.0''"
      then show ?thesis using v29 unfolding Pair
        by (simp add: s(5) minor_ceiling_inv_def)
    qed
  qed
qed

lemma minor_ceiling_loop:
  assumes sv: "semvers opts = [''patch'', ''minor'']"
    and tm: "useGreatest opts \<or> time data = None \<or>
      (the (time data) ''1.3.0'' = Some t30 \<and> 0 < t30 \<and>
       (\<forall>t. the (time data) ''1.2.3'' = Some t \<longrightarrow> t < t30) \<and>
       (\<forall>t. the (time data) ''1.2.9'' = Some t \<longrightarrow> t < t30))"
    and inv: "minor_ceiling_inv (useGreatest opts \<or> time data = None) t30 st"
    and xs: "\<forall>x\<in>set xs. x = ''1.2.3'' \<or> x = ''1.2.9'' \<or> x = ''1.3.0'' \<or> x = ''2.0.0''"
  shows "\<exists>st'. findVersion_loop data opts st xs = Inr st' \<and>
     minor_ceiling_inv (useGreatest opts \<or> time data = None) t30 st' \<and>
     (fst st = Some ''1.3.0'' \<or> ''1.3.0'' \<in> set xs \<longrightarrow> fst st' = Some ''1.3.0'')"
  using inv xs
proof (induction xs arbitrary: st)
  case Nil
  then show ?case by simp
next
  case (Cons x xs)
  from Cons.prems(2) have x: "x = ''1.2.3'' \<or> x = ''1.2.9'' \<or> x = ''1.3.0'' \<or> x = ''2.0.0''"
    and rest: "\<forall>x\<in>set xs. x = ''1.2.3'' \<or> x = ''1.2.9'' \<or> x = ''1.3.0'' \<or> x = ''2.0.0''"
    by simp_all
  from minor_ceiling_step [OF sv tm Cons.prems(1) x]
  obtain st1 where s1: "findVersion_step data opts st x = Inr st1"
    and i1: "minor_ceiling_inv (useGreatest opts \<or> time data = None) t30 st1"
    and k1: "fst st = Some ''1.3.0'' \<or> x = ''1.3.0'' \<longrightarrow> fst st1 = Some ''1.3.0''"
    by blast
  from Cons.IH [OF i1 rest]
  obtain st2 where s2: "findVersion_loop data opts st1 xs = Inr st2"
    and i2: "minor_ceiling_inv (useGreatest opts \<or> time data = None) t30 st2"
    and k2: "fst st1 = Some ''1.3.0'' \<or> ''1.3.0'' \<in> set xs \<longrightarrow> fst st2 = Some ''1.3.0''"
    by blast
  have "findVersion_loop data opts st (x # xs) = Inr st2"
    by (simp add: s1 s2)
  moreover have "fst st = Some ''1.3.0'' \<or> ''1.3.0'' \<in> set (x # xs) \<longrightarrow> fst st2 = Some ''1.3.0''"
    using k1 k2 by auto
  ultimately show ?case using i2 by blast
qed

lemma minor_ceiling_findVersion:
  assumes vs: "set vs = {''1.2.3'', ''1.2.9'', ''1.3.0'', ''2.0.0''}"
    and sv: "semvers opts = [''patch'', ''minor'']" and rg: "range opts = ''^1.2.3''"
    and tm: "useGreatest opts \<or> time data = None \<or>
      (\<exists>published t30. time data = Some published \<and> published ''1.3.0'' = Some t30 \<and> 0 < t30 \<and>
         (\<forall>t. published ''1.2.3'' = Some t \<longrightarrow> t < t30) \<and>
         (\<forall>t. published ''1.2.9'' = Some t \<longrightarrow> t < t30))"
  shows "findVersion data vs opts = Inr (Some ''1.3.0'')"
proof -
  have r: "rangeToVersion ''^1.2.3'' = Some ''1.2.3''" by code_simp
  obtain t30 where tm': "useGreatest opts \<or> time data = None \<or>
      (the (time data) ''1.3.0'' = Some t30 \<and> 0 < t30 \<and>
       (\<forall>t. the (time data) ''1.2.3'' = Some t \<longrightarrow> t < t30) \<and>
       (\<forall>t. the (time data) ''1.2.9'' = Some t \<longrightarrow> t < t30))"
    using tm by fastforce
  have i0: "minor_ceiling_inv (useGreatest opts \<or> time data = None) t30 (Some ''1.2.3'', 0)"
    using tm' by (auto simp: minor_ceiling_inv_def)
  have xs: "\<forall>x\<in>set vs. x = ''1.2.3'' \<or> x = ''1.2.9'' \<or> x = ''1.3.0'' \<or> x = ''2.0.0''"
    unfolding vs by simp
  have m: "''1.3.0'' \<in> set vs" unfolding vs by simp
  from minor_ceiling_loop [OF sv tm' i0 xs] m
  obtain st' where "findVersion_loop data opts (Some ''1.2.3'', 0) vs = Inr st'"
    and "fst st' = Some ''1.3.0''"
    by blast
  then show ?thesis
    by (cases st') (simp add: findVersion_def rg r)
qed


text \<open>
  C7, as stated, fails.  The claim gives the published versions 1.2.3, 1.2.9, 1.3.0 and
  2.0.0 and says nothing of their publication times.  With the times of a registry where
  the patch release 1.2.9 was published after 1.3.0, and without \<open>useGreatest\<close>, the
  selection goes by publication time and the new version is 1.2.9, not 1.3.0.
\<close>

theorem ceiling_published_later_counterexample:
  "findNewVersion
     \<lparr> name = ''pkg'', versions = [''1.2.3'', ''1.2.9'', ''1.3.0'', ''2.0.0''],
       dist_tags = Some [''latest'' \<mapsto> ''2.0.0''],
       time = Some [''1.2.3'' \<mapsto> 1000, ''1.3.0'' \<mapsto> 2000, ''2.0.0'' \<mapsto> 3000, ''1.2.9'' \<mapsto> 4000],
       err = None \<rparr>
     \<lparr> usePre = False, useRel = False, useGreatest = False,
       semvers = [''patch'', ''minor''], range = ''^1.2.3'' \<rparr> = Inr (Some ''1.2.9'')"
  by code_simp

text \<open>
  C7, amended.  Old range \<open>^1.2.3\<close>, ceiling patch+minor, published versions 1.2.3, 1.2.9,
  1.3.0 and 2.0.0 listed by the registry in any order, dist-tag latest 2.0.0: the new
  version is 1.3.0, whatever the three policy flags, when the selection goes by greatest
  version (\<open>useGreatest\<close> holds or the registry gives no publication times), or when 1.3.0
  has a publication time after the epoch and 1.2.3 and 1.2.9 have none or an earlier one.
\<close>

theorem ceiling_excludes_latest_major:
  assumes vs: "set (versions data) = {''1.2.3'', ''1.2.9'', ''1.3.0'', ''2.0.0''}"
    and tags: "dist_tags data = Some tags" and latest: "tags ''latest'' = Some ''2.0.0''"
    and sv: "semvers opts = [''patch'', ''minor'']" and rg: "range opts = ''^1.2.3''"
    and tm: "useGreatest opts \<or> time data = None \<or>
      (\<exists>published t30. time data = Some published \<and> published ''1.3.0'' = Some t30 \<and> 0 < t30 \<and>
         (\<forall>t. published ''1.2.3'' = Some t \<longrightarrow> t < t30) \<and>
         (\<forall>t. published ''1.2.9'' = Some t \<longrightarrow> t < t30))"
  shows "findNewVersion data opts = Inr (Some ''1.3.0'')"
proof -
  have v: "is_valid ''1.2.3''" "is_valid ''1.2.9''" "is_valid ''1.3.0''" "is_valid ''2.0.0''"
    by code_simp+
  have "\<forall>x\<in>set (versions data). is_valid x"
    unfolding vs using v by simp
  then have "filter is_valid (versions data) = versions data"
    by (simp only: filter_id_conv)
  then have "set (filter is_valid (versions data)) = {''1.2.3'', ''1.2.9'', ''1.3.0'', ''2.0.0''}"
    using vs by (simp only:)
  from minor_ceiling_findVersion [OF this sv rg tm]
  have fv: "findVersion data (filter is_valid (versions data)) opts = Inr (Some ''1.3.0'')" .
  have c: "coerce ''^1.2.3'' = Some (release 1 2 3)" by code_simp
  have f: "version_of (release 1 2 3) = ''1.2.3''" by code_simp
  have rp: "isRangePrerelease ''^1.2.3'' = False" by code_simp
  have g: "gt (Some ''1.3.0'') (Some ''1.2.3'') = Inr True" by code_simp
  have d: "diff (Some ''1.2.3'') (Some ''2.0.0'') = Inr (Some ''major'')" by code_simp
  have sp: "strip_pre ''major'' = ''major''" by code_simp
  show ?thesis
    unfolding findNewVersion_def fv
    by (simp add: rg tags latest c f rp g d sp sv Let_def del: One_nat_def)
qed

theorem ceiling_excludes_latest_major_witness:
  "findNewVersion
     \<lparr> name = ''pkg'', versions = [''2.0.0'', ''1.3.0'', ''1.2.9'', ''1.2.3''],
       dist_tags = Some [''latest'' \<mapsto> ''2.0.0''],
       time = Some [''1.2.3'' \<mapsto> 1000, ''1.2.9'' \<mapsto> 2000, ''1.3.0'' \<mapsto> 3000, ''2.0.0'' \<mapsto> 4000],
       err = None \<rparr>
     \<lparr> usePre = False, useRel = False, useGreatest = False,
       semvers = [''patch'', ''minor''], range = ''^1.2.3'' \<rparr> = Inr (Some ''1.3.0'')"
  by (rule ceiling_excludes_latest_major [where tags = "[''latest'' \<mapsto> ''2.0.0'']"])
     (simp_all add: insert_commute)


definition beta :: "nat \<Rightarrow> SemVer" where
  "beta n = \<lparr> major = 1, minor = 0, patch = 0,
              prerelease = [Alphanumeric ''beta'', Numeric n], build = [] \<rparr>"

lemma prerelease_track_selection:
  assumes up: "usePre opts" and ur: "\<not> useRel opts"
    and sv: "semvers opts = [''patch'', ''minor'', ''major'']" and rg: "range opts = ''1.0.0-beta.1''"
    and tm: "useGreatest opts \<or> time data = None \<or>
      (\<exists>t1 t2 t3. the (time data) ''1.0.0-beta.1'' = Some t1 \<and>
          the (time data) ''1.0.0-beta.2'' = Some t2 \<and> the (time data) ''1.0.0'' = Some t3 \<and>
          0 < t1 \<and> t1 < t2 \<and> t2 < t3)"
  shows "\<exists>dt. findVersion_loop data opts (rangeToVersion (range opts), 0)
           [''1.0.0-beta.1'', ''1.0.0-beta.2'', ''1.0.0''] = Inr (Some ''1.0.0'', dt)"
  supply [simp del] = One_nat_def
proof -
  have r: "rangeToVersion ''1.0.0-beta.1'' = Some ''1.0.0''" by code_simp
  have p: "parse (Some ''1.0.0-beta.1'') = Some (beta 1)" "parse (Some ''1.0.0-beta.2'') = Some (beta 2)"
    "parse (Some ''1.0.0'') = Some (release 1 0 0)"
    by code_simp+
  have f: "version_of (beta 1) = ''1.0.0-beta.1''" "version_of (beta 2) = ''1.0.0-beta.2''"
    "version_of (release 1 0 0) = ''1.0.0''"
    by code_simp+
  have ns: "\<not> skip_prerelease opts x" for x
    using up ur by (simp add: skip_prerelease_def findVersion_usePre_def)
  have d: "diff (Some ''1.0.0'') (Some ''1.0.0-beta.1'') = Inr (Some ''prerelease'')"
    "diff (Some ''1.0.0-beta.1'') (Some ''1.0.0-beta.2'') = Inr (Some ''prerelease'')"
    "diff (Some ''1.0.0-beta.2'') (Some ''1.0.0'') = Inr (Some ''prerelease'')"
    by code_simp+
  have c: "coerce ''1.0.0-beta.1'' = Some (release 1 0 0)" "coerce ''1.0.0-beta.2'' = Some (release 1 0 0)"
    "coerce ''1.0.0'' = Some (release 1 0 0)"
    by code_simp+
  have g: "gte (Some ''1.0.0'') (Some ''1.0.0'') = Inr True"
    "gte (Some ''1.0.0'') (Some ''1.0.0-beta.1'') = Inr True"
    "gte (Some ''1.0.0'') (Some ''1.0.0-beta.2'') = Inr True"
    by code_simp+
  have sm: "''prerelease'' \<in> set (findVersion_semvers opts)"
    using up by (simp add: findVersion_semvers_def findVersion_usePre_def Let_def sv)
  have s1: "findVersion_step data opts (Some ''1.0.0'', dt) ''1.0.0-beta.1'' =
     (if useGreatest opts \<or> time data = None then pick_greatest (Some ''1.0.0'', dt) (beta 1)
      else Inr (pick_latest (the (time data)) (Some ''1.0.0'', dt) ''1.0.0-beta.1'' (beta 1)))" for dt
    by (rule findVersion_step_pick [OF p(1) ns _ sm]) (simp add: f d)
  have s2: "findVersion_step data opts (Some ''1.0.0-beta.1'', dt) ''1.0.0-beta.2'' =
     (if useGreatest opts \<or> time data = None then pick_greatest (Some ''1.0.0-beta.1'', dt) (beta 2)
      else Inr (pick_latest (the (time data)) (Some ''1.0.0-beta.1'', dt) ''1.0.0-beta.2'' (beta 2)))" for dt
    by (rule findVersion_step_pick [OF p(2) ns _ sm]) (simp add: f d)
  have s3: "findVersion_step data opts (Some ''1.0.0-beta.2'', dt) ''1.0.0'' =
     (if useGreatest opts \<or> time data = None then pick_greatest (Some ''1.0.0-beta.2'', dt) (release 1 0 0)
      else Inr (pick_latest (the (time data)) (Some ''1.0.0-beta.2'', dt) ''1.0.0'' (release 1 0 0)))" for dt
    by (rule findVersion_step_pick [OF p(3) ns _ sm]) (simp add: f d)
  have g1: "pick_greatest (Some ''1.0.0'', dt) (beta 1) = Inr (Some ''1.0.0-beta.1'', dt)" for dt
    using pick_greatest_take [of "beta 1" "release 1 0 0" "''1.0.0''" dt] by (simp add: f c g)
  have g2: "pick_greatest (Some ''1.0.0-beta.1'', dt) (beta 2) = Inr (Some ''1.0.0-beta.2'', dt)" for dt
    using pick_greatest_take [of "beta 2" "release 1 0 0" "''1.0.0-beta.1''" dt] by (simp add: f c g)
  have g3: "pick_greatest (Some ''1.0.0-beta.2'', dt) (release 1 0 0) = Inr (Some ''1.0.0'', dt)" for dt
    using pick_greatest_take [of "release 1 0 0" "release 1 0 0" "''1.0.0-beta.2''" dt] by (simp add: f c g)
  show ?thesis
  proof (cases "useGreatest opts \<or> time data = None")
    case True
    have a: "findVersion_step data opts (Some ''1.0.0'', 0) ''1.0.0-beta.1'' = Inr (Some ''1.0.0-beta.1'', 0)"
      using True by (simp only: s1 g1 if_True)
    have b: "findVersion_step data opts (Some ''1.0.0-beta.1'', 0) ''1.0.0-beta.2'' = Inr (Some ''1.0.0-beta.2'', 0)"
      using True by (simp only: s2 g2 if_True)
    have e: "findVersion_step data opts (Some ''1.0.0-beta.2'', 0) ''1.0.0'' = Inr (Some ''1.0.0'', 0)"
      using True by (simp only: s3 g3 if_True)
    show ?thesis by (simp add: rg r a b e)
  next
    case False
    with tm obtain t1 t2 t3 where t: "the (time data) ''1.0.0-beta.1'' = Some t1"
      "the (time data) ''1.0.0-beta.2'' = Some t2" "the (time data) ''1.0.0'' = Some t3"
      "0 < t1" "t1 < t2" "t2 < t3"
      by blast
    have l1: "pick_latest (the (time data)) (Some ''1.0.0'', 0) ''1.0.0-beta.1'' (beta 1) = (Some ''1.0.0-beta.1'', t1)"
      using t by (simp add: pick_latest_def f)
    have l2: "pick_latest (the (time data)) (Some ''1.0.0-beta.1'', t1) ''1.0.0-beta.2'' (beta 2) = (Some ''1.0.0-beta.2'', t2)"
      using t by (simp add: pick_latest_def f)
    have l3: "pick_latest (the (time data)) (Some ''1.0.0-beta.2'', t2) ''1.0.0'' (release 1 0 0) = (Some ''1.0.0'', t3)"
      using t by (simp add: pick_latest_def f)
    have a: "findVersion_step data opts (Some ''1.0.0'', 0) ''1.0.0-beta.1'' = Inr (Some ''1.0.0-beta.1'', t1)"
      using False by (simp only: s1 l1 if_False)
    have b: "findVersion_step data opts (Some ''1.0.0-beta.1'', t1) ''1.0.0-beta.2'' = Inr (Some ''1.0.0-beta.2'', t2)"
      using False by (simp only: s2 l2 if_False)
    have e: "findVersion_step data opts (Some ''1.0.0-beta.2'', t2) ''1.0.0'' = Inr (Some ''1.0.0'', t3)"
      using False by (simp only: s3 l3 if_False)
    show ?thesis by (simp add: rg r a b e)
  qed
qed

text \<open>
  C2, as the specification states it, fails: with the old range \<open>1.0.0-beta.1\<close>, prereleases
  allowed, the full ceiling and the versions 1.0.0-beta.1, 1.0.0-beta.2 and 1.0.0 in this
  order (no publication times), the new version is 1.0.0 and not 1.0.0-beta.2.
\<close>

theorem prerelease_track_counterexample:
  "findNewVersion
     \<lparr> name = ''pkg'', versions = [''1.0.0-beta.1'', ''1.0.0-beta.2'', ''1.0.0''],
       dist_tags = Some [''latest'' \<mapsto> ''1.0.0''], time = None, err = None \<rparr>
     \<lparr> usePre = True, useRel = False, useGreatest = False,
       semvers = [''patch'', ''minor'', ''major''], range = ''1.0.0-beta.1'' \<rparr>
   \<noteq> Inr (Some ''1.0.0-beta.2'')"
  by code_simp

text \<open>
  C2, amended.  In this scenario the rule for prereleases (\<open>!useRel && usePre\<close>) does
  come first and returns the selected version unchanged, whatever the dist-tags say; but
  the selection, which compares each version with the running candidate, has moved from
  the prereleases on to the release: the new version is 1.0.0, when the registry gives no
  publication times or the versions were published in the order listed.
\<close>

theorem prerelease_track_reaches_release:
  assumes vs: "versions data = [''1.0.0-beta.1'', ''1.0.0-beta.2'', ''1.0.0'']"
    and tags: "dist_tags data = Some tags"
    and up: "usePre opts" and ur: "\<not> useRel opts" and ug: "\<not> useGreatest opts"
    and sv: "semvers opts = [''patch'', ''minor'', ''major'']" and rg: "range opts = ''1.0.0-beta.1''"
    and tm: "time data = None \<or>
      (\<exists>published t1 t2 t3. time data = Some published \<and>
          published ''1.0.0-beta.1'' = Some t1 \<and> published ''1.0.0-beta.2'' = Some t2 \<and>
          published ''1.0.0'' = Some t3 \<and> 0 < t1 \<and> t1 < t2 \<and> t2 < t3)"
  shows "findNewVersion data opts = Inr (Some ''1.0.0'')"
proof -
  have fl: "filter is_valid [''1.0.0-beta.1'', ''1.0.0-beta.2'', ''1.0.0''] =
      [''1.0.0-beta.1'', ''1.0.0-beta.2'', ''1.0.0'']"
    by code_simp
  from tm have "useGreatest opts \<or> time data = None \<or>
      (\<exists>t1 t2 t3. the (time data) ''1.0.0-beta.1'' = Some t1 \<and>
          the (time data) ''1.0.0-beta.2'' = Some t2 \<and> the (time data) ''1.0.0'' = Some t3 \<and>
          0 < t1 \<and> t1 < t2 \<and> t2 < t3)"
    by auto
  from prerelease_track_selection [OF up ur sv rg this]
  obtain dt where "findVersion_loop data opts (rangeToVersion (range opts), 0)
      [''1.0.0-beta.1'', ''1.0.0-beta.2'', ''1.0.0''] = Inr (Some ''1.0.0'', dt)"
    by blast
  then have "findVersion data [''1.0.0-beta.1'', ''1.0.0-beta.2'', ''1.0.0''] opts = Inr (Some ''1.0.0'')"
    by (simp add: findVersion_def)
  moreover have "filter is_valid (versions data) = [''1.0.0-beta.1'', ''1.0.0-beta.2'', ''1.0.0'']"
    by (simp only: vs fl)
  ultimately have fv: "findVersion data (filter is_valid (versions data)) opts = Inr (Some ''1.0.0'')"
    by (simp only:)
  have c: "coerce ''1.0.0-beta.1'' = Some (release 1 0 0)" by code_simp
  have f: "version_of (release 1 0 0) = ''1.0.0''" by code_simp
  have g: "gt (Some ''1.0.0'') (Some ''1.0.0'') = Inr False" by code_simp
  show ?thesis
    unfolding findNewVersion_def fv
    by (simp add: rg tags c f g up ur ug Let_def del: One_nat_def)
qed

theorem prerelease_track_reaches_release_witness:
  "findNewVersion
     \<lparr> name = ''pkg'', versions = [''1.0.0-beta.1'', ''1.0.0-beta.2'', ''1.0.0''],
       dist_tags = Some [''latest'' \<mapsto> ''1.0.0-beta.2''],
       time = Some [''1.0.0-beta.1'' \<mapsto> 1000, ''1.0.0-beta.2'' \<mapsto> 2000, ''1.0.0'' \<mapsto> 3000],
       err = None \<rparr>
     \<lparr> usePre = True, useRel = False, useGreatest = False,
       semvers = [''patch'', ''minor'', ''major''], range = ''1.0.0-beta.1'' \<rparr>
   = Inr (Some ''1.0.0'')"
  by (rule prerelease_track_reaches_release [where tags = "[''latest'' \<mapsto> ''1.0.0-beta.2'']"])
     simp_all


section \<open>The result set\<close>







section \<open>Properties of the range rewriter\<close>

lemma getSubstitution_plain:
  "CHR ''$'' \<notin> set v \<Longrightarrow> getSubstitution m consumed after cap v = v"
  by (induction m consumed after cap v rule: getSubstitution.induct) auto

lemma replace_global_plain:
  assumes "CHR ''$'' \<notin> set v"
  shows "replace_global consumed s v = replace_global [] s v"
proof (induction "length s" arbitrary: s consumed rule: less_induct)
  case less
  show ?case
  proof (cases "exec s")
    case None
    then show ?thesis by (simp add: replace_global.simps)
  next
    case (Some r)
    then obtain sk m cap rest where e: "exec s = Some (sk, m, cap, rest)" by (cases r) auto
    from exec_shorter [OF e] have "length rest < length s" .
    from less [OF this] have "replace_global (consumed @ sk @ m) rest v = replace_global [] rest v"
      and "replace_global ([] @ sk @ m) rest v = replace_global [] rest v"
      by blast+
    then show ?thesis
      using e assms
      by (simp add: replace_global.simps [of consumed s] replace_global.simps [of "[]" s]
          getSubstitution_plain)
  qed
qed

lemma updateRange_unfold:
  assumes "CHR ''$'' \<notin> set v"
  shows "updateRange s v =
     (case exec s of None \<Rightarrow> s | Some (sk, m, cap, rest) \<Rightarrow> sk @ v @ updateRange rest v)"
proof (cases "exec s")
  case None
  then show ?thesis by (simp add: updateRange_def replace_global.simps)
next
  case (Some r)
  then obtain sk m cap rest where e: "exec s = Some (sk, m, cap, rest)" by (cases r) auto
  show ?thesis
    using e assms replace_global_plain [OF assms, of "sk @ m" rest]
    by (simp add: updateRange_def replace_global.simps [of "[]" s] getSubstitution_plain)
qed

lemma version_re_at_no_digit: "\<not> is_digit c \<Longrightarrow> version_re_at (c # s) = None"
  by (simp add: version_re_at_def triple_at_def digits1_def)

lemma exec_skip: "\<not> is_digit c \<Longrightarrow>
  exec (c # s) = (case exec s of None \<Rightarrow> None | Some (sk, m, cap, rest) \<Rightarrow> Some (c # sk, m, cap, rest))"
  by (simp add: version_re_at_no_digit)

lemma updateRange_skip:
  assumes "CHR ''$'' \<notin> set v" and "\<not> is_digit c"
  shows "updateRange (c # s) v = c # updateRange s v"
proof (cases "exec s")
  case None
  with exec_skip [OF assms(2), of s] have "exec (c # s) = None" by (simp only: option.case)
  with None show ?thesis
    by (simp only: updateRange_unfold [OF assms(1), of "c # s"]
        updateRange_unfold [OF assms(1), of s] option.case)
next
  case (Some r)
  then obtain sk m cap rest where e: "exec s = Some (sk, m, cap, rest)" by (cases r) auto
  with exec_skip [OF assms(2), of s] have "exec (c # s) = Some (c # sk, m, cap, rest)"
    by (simp only: option.case prod.case)
  with e show ?thesis
    by (simp only: updateRange_unfold [OF assms(1), of "c # s"]
        updateRange_unfold [OF assms(1), of s] option.case prod.case append_Cons)
qed

lemma updateRange_prefix:
  assumes "CHR ''$'' \<notin> set v" and "\<forall>c\<in>set p. \<not> is_digit c"
  shows "updateRange (p @ s) v = p @ updateRange s v"
  using assms(2) by (induction p) (simp_all add: updateRange_skip [OF assms(1)])

lemma exec_split:
  "exec s = Some (sk, m, cap, rest) \<Longrightarrow>
     s = sk @ m @ rest \<and> version_re_at (m @ rest) = Some (m, cap, rest)"
proof (induction s arbitrary: sk)
  case Nil
  then show ?case by simp
next
  case (Cons c cs)
  show ?case
  proof (cases "version_re_at (c # cs)")
    case None
    with Cons.prems obtain sk' where sk: "sk = c # sk'" and e: "exec cs = Some (sk', m, cap, rest)"
      by (auto split: option.splits)
    from Cons.IH [OF e] sk show ?thesis by simp
  next
    case (Some r)
    with Cons.prems have v: "version_re_at (c # cs) = Some (m, cap, rest)" and sk: "sk = []"
      by (auto split: option.splits prod.splits)
    from version_re_at_split [OF v] v sk show ?thesis by simp
  qed
qed


text \<open>
  Whether the three dotted numbers are found at the start of a string, in three stages:
  the third number, the second number with its dot, the first number with its dot.
\<close>

definition third_ok :: "string \<Rightarrow> bool" where
  "third_ok s = (digits1 s \<noteq> None)"

definition second_ok :: "string \<Rightarrow> bool" where
  "second_ok s =
     (case digits1 s of None \<Rightarrow> False | Some (b, s3) \<Rightarrow>
     (case lit (CHR ''.'') s3 of None \<Rightarrow> False | Some s4 \<Rightarrow> third_ok s4))"

definition first_ok :: "string \<Rightarrow> bool" where
  "first_ok s =
     (case digits1 s of None \<Rightarrow> False | Some (a, s1) \<Rightarrow>
     (case lit (CHR ''.'') s1 of None \<Rightarrow> False | Some s2 \<Rightarrow> second_ok s2))"

lemma triple_at_None_iff: "triple_at s = None \<longleftrightarrow> \<not> first_ok s"
  by (simp add: triple_at_def first_ok_def second_ok_def third_ok_def
      split: option.splits prod.splits)

lemma digits1_append_digits:
  assumes "\<forall>c\<in>set u. is_digit c" and "digits1 x = Some (a, r)"
  shows "digits1 (u @ x) = Some (u @ a, r)"
  using assms unfolding digits1_iff by auto

lemma digits1_append_other:
  assumes "\<not> (\<forall>c\<in>set u. is_digit c)"
  shows "digits1 (u @ x) =
     (if takeWhile is_digit u = [] then None
      else Some (takeWhile is_digit u, dropWhile is_digit u @ x))"
proof -
  from assms obtain c where c: "c \<in> set u" "\<not> is_digit c" by blast
  then have "takeWhile is_digit (u @ x) = takeWhile is_digit u"
    and "dropWhile is_digit (u @ x) = dropWhile is_digit u @ x"
    by (simp_all add: takeWhile_append1 dropWhile_append1)
  then show ?thesis by (simp add: digits1_def)
qed

lemma dropWhile_other_Cons:
  assumes "\<not> (\<forall>c\<in>set u. is_digit c)"
  shows "\<exists>c u'. dropWhile is_digit u = c # u' \<and> \<not> is_digit c"
proof -
  from assms have "dropWhile is_digit u \<noteq> []" by (simp add: dropWhile_eq_Nil_conv)
  then obtain c u' where "dropWhile is_digit u = c # u'" by (cases "dropWhile is_digit u") auto
  moreover from this have "\<not> is_digit c" using hd_dropWhile [of is_digit u] by auto
  ultimately show ?thesis by blast
qed

lemma third_ok_append:
  assumes "third_ok x" and "third_ok y"
  shows "third_ok (u @ x) \<longleftrightarrow> third_ok (u @ y)"
proof (cases "\<forall>c\<in>set u. is_digit c")
  case True
  with assms show ?thesis
    by (auto simp: third_ok_def dest: digits1_append_digits)
next
  case False
  then show ?thesis by (simp add: third_ok_def digits1_append_other)
qed

lemma second_ok_third: "second_ok x \<Longrightarrow> third_ok x"
  by (auto simp: second_ok_def third_ok_def split: option.splits)

lemma first_ok_second: "first_ok x \<Longrightarrow> second_ok x"
  by (auto simp: first_ok_def second_ok_def third_ok_def split: option.splits)

lemma second_ok_append:
  assumes "second_ok x" and "second_ok y"
  shows "second_ok (u @ x) \<longleftrightarrow> second_ok (u @ y)"
proof (cases "\<forall>c\<in>set u. is_digit c")
  case True
  have "second_ok (u @ z)" if "second_ok z" for z
  proof -
    from that obtain b s3 where "digits1 z = Some (b, s3)" and r: "case lit (CHR ''.'') s3 of None \<Rightarrow> False | Some s4 \<Rightarrow> third_ok s4"
      by (auto simp: second_ok_def split: option.splits)
    from digits1_append_digits [OF True this(1)] r show ?thesis
      by (simp add: second_ok_def)
  qed
  with assms show ?thesis by simp
next
  case False
  from dropWhile_other_Cons [OF False] obtain c u' where d: "dropWhile is_digit u = c # u'" by blast
  have "second_ok (u @ z) \<longleftrightarrow> takeWhile is_digit u \<noteq> [] \<and> c = CHR ''.'' \<and> third_ok (u' @ z)" for z
    by (simp add: second_ok_def digits1_append_other [OF False] d lit_def)
  with third_ok_append [OF second_ok_third [OF assms(1)] second_ok_third [OF assms(2)], of u']
  show ?thesis by simp
qed

lemma first_ok_append:
  assumes "first_ok x" and "first_ok y"
  shows "first_ok (u @ x) \<longleftrightarrow> first_ok (u @ y)"
proof (cases "\<forall>c\<in>set u. is_digit c")
  case True
  have "first_ok (u @ z)" if "first_ok z" for z
  proof -
    from that obtain a s1 where "digits1 z = Some (a, s1)" and r: "case lit (CHR ''.'') s1 of None \<Rightarrow> False | Some s2 \<Rightarrow> second_ok s2"
      by (auto simp: first_ok_def split: option.splits)
    from digits1_append_digits [OF True this(1)] r show ?thesis
      by (simp add: first_ok_def)
  qed
  with assms show ?thesis by simp
next
  case False
  from dropWhile_other_Cons [OF False] obtain c u' where d: "dropWhile is_digit u = c # u'" by blast
  have "first_ok (u @ z) \<longleftrightarrow> takeWhile is_digit u \<noteq> [] \<and> c = CHR ''.'' \<and> second_ok (u' @ z)" for z
    by (simp add: first_ok_def digits1_append_other [OF False] d lit_def)
  with second_ok_append [OF first_ok_second [OF assms(1)] first_ok_second [OF assms(2)], of u']
  show ?thesis by simp
qed

lemma version_re_at_None_iff: "version_re_at s = None \<longleftrightarrow> \<not> first_ok s"
  by (auto simp: version_re_at_def triple_at_None_iff [symmetric] split: option.splits)

text \<open>
  Whether the pattern matches at a position before a match depends on the text up to that
  match only.
\<close>

lemma version_re_at_before_match:
  assumes "version_re_at x \<noteq> None" and "version_re_at y \<noteq> None"
  shows "version_re_at (u @ x) = None \<longleftrightarrow> version_re_at (u @ y) = None"
  using assms first_ok_append [of x y u] by (simp add: version_re_at_None_iff)

lemma exec_replace_match:
  assumes "exec s = Some (sk, m, cap, rest)" and "version_re_at (v @ w) = Some (v, cap', w)"
  shows "exec (sk @ v @ w) = Some (sk, v, cap', w)"
  using assms(1)
proof (induction s arbitrary: sk)
  case Nil
  then show ?case by simp
next
  case (Cons c cs)
  from version_re_at_split [OF assms(2)] obtain h t where v: "v = h # t" by (cases v) auto
  show ?case
  proof (cases "version_re_at (c # cs)")
    case None
    with Cons.prems obtain sk' where sk: "sk = c # sk'" and e: "exec cs = Some (sk', m, cap, rest)"
      by (auto split: option.splits)
    from exec_split [OF e] have cs: "cs = sk' @ m @ rest" and mm: "version_re_at (m @ rest) \<noteq> None"
      by simp_all
    from None cs have "version_re_at ((c # sk') @ m @ rest) = None" by simp
    with version_re_at_before_match [of "m @ rest" "v @ w" "c # sk'"] mm assms(2)
    have "version_re_at (c # sk' @ v @ w) = None" by simp
    with Cons.IH [OF e] sk show ?thesis by simp
  next
    case (Some r)
    with Cons.prems have sk: "sk = []"
      by (auto split: option.splits prod.splits)
    with assms(2) v show ?thesis by simp
  qed
qed


text \<open>
  What follows a match: nothing, or a character that is not a digit and does not start the
  group \<open>(-.+)\<close>.  Rewriting keeps this.
\<close>

definition boundary :: "string \<Rightarrow> bool" where
  "boundary s = (s = [] \<or> (\<not> is_digit (hd s) \<and> dash_tail s = None))"

lemma line_terminator_not_digit: "\<not> not_line_terminator c \<Longrightarrow> \<not> is_digit c"
  by (auto simp: not_line_terminator_def is_line_terminator_def is_digit_def)

lemma version_re_at_boundary:
  assumes "version_re_at s = Some (m, cap, rest)"
  shows "boundary rest"
proof (cases "rest = []")
  case True
  then show ?thesis by (simp add: boundary_def)
next
  case False
  from assms obtain m0 s5 where t: "triple_at s = Some (m0, s5)"
    by (auto simp: version_re_at_def split: option.splits)
  show ?thesis
  proof (cases "dash_tail s5")
    case None
    with assms t have "rest = s5" by (simp add: version_re_at_def)
    with t None False show ?thesis by (auto simp: boundary_def triple_at_iff)
  next
    case (Some r)
    then obtain tl' rest' where d: "dash_tail s5 = Some (tl', rest')" by (cases r) auto
    with assms t have "rest = rest'" by (simp add: version_re_at_def)
    with d False have nl: "\<not> not_line_terminator (hd rest)" by (auto simp: dash_tail_iff)
    then have "hd rest \<noteq> CHR ''-''"
      by (auto simp: not_line_terminator_def is_line_terminator_def)
    with False have "dash_tail rest = None" by (cases rest) (auto simp: dash_tail_def)
    with nl show ?thesis by (simp add: boundary_def line_terminator_not_digit)
  qed
qed

lemma updateRange_Nil: "updateRange [] v = []"
  by (simp add: updateRange_def replace_global.simps)

lemma updateRange_boundary:
  assumes "CHR ''$'' \<notin> set v" and "boundary s"
  shows "boundary (updateRange s v)"
proof (cases s)
  case Nil
  then show ?thesis by (simp add: updateRange_Nil boundary_def)
next
  case (Cons c r)
  with assms(2) have nd: "\<not> is_digit c" and dt: "dash_tail (c # r) = None"
    by (simp_all add: boundary_def)
  have u: "updateRange (c # r) v = c # updateRange r v"
    by (rule updateRange_skip [OF assms(1) nd])
  have "dash_tail (c # updateRange r v) = None"
  proof (cases "c = CHR ''-''")
    case False
    then show ?thesis by (simp add: dash_tail_def)
  next
    case True
    with dt have tw: "takeWhile not_line_terminator r = []"
      by (simp add: dash_tail_def split: if_splits)
    show ?thesis
    proof (cases r)
      case Nil
      then show ?thesis by (simp add: updateRange_Nil dash_tail_def)
    next
      case (Cons l r')
      with tw have nl: "\<not> not_line_terminator l" by (auto split: if_splits)
      from updateRange_skip [OF assms(1) line_terminator_not_digit [OF nl], of r'] Cons nl
      show ?thesis by (simp add: dash_tail_def)
    qed
  qed
  with nd u Cons show ?thesis by (simp add: boundary_def)
qed

lemma triple_chars:
  assumes "triple_at v = Some (v, [])"
  shows "CHR ''$'' \<notin> set v"
proof -
  from assms obtain a b c where v: "v = a @ ''.'' @ b @ ''.'' @ c"
    and d: "\<forall>x\<in>set a. is_digit x" "\<forall>x\<in>set b. is_digit x" "\<forall>x\<in>set c. is_digit x"
    unfolding triple_at_iff by auto
  have "\<not> is_digit (CHR ''$'')" by (simp add: is_digit_def)
  with d v show ?thesis by auto
qed

lemma version_re_at_triple:
  assumes "triple_at v = Some (v, [])" and "boundary w"
  shows "version_re_at (v @ w) = Some (v, None, w)"
proof -
  from assms(1) obtain a b c where v: "v = a @ ''.'' @ b @ ''.'' @ c"
    and d: "a \<noteq> []" "b \<noteq> []" "c \<noteq> []"
      "\<forall>x\<in>set a. is_digit x" "\<forall>x\<in>set b. is_digit x" "\<forall>x\<in>set c. is_digit x"
    unfolding triple_at_iff by auto
  from assms(2) have w: "w = [] \<or> \<not> is_digit (hd w)" and dt: "dash_tail w = None"
    by (auto simp: boundary_def dash_tail_def)
  have "triple_at (v @ w) = Some (v, w)"
    unfolding triple_at_iff using v d w by blast
  with dt show ?thesis by (simp add: version_re_at_def)
qed










text \<open>
  C8, as the specification states it, fails for a version with a prerelease: in the
  rewritten range the group \<open>(-.+)\<close> takes everything up to the end of the line.
\<close>

theorem updateRange_idempotent_counterexample:
  "updateRange (updateRange ''>=1.2.3 <2.0.0'' ''1.5.0-rc.1'') ''1.5.0-rc.1'' = ''>=1.5.0-rc.1'' \<and>
   updateRange ''>=1.2.3 <2.0.0'' ''1.5.0-rc.1'' = ''>=1.5.0-rc.1 <1.5.0-rc.1''"
  by code_simp

text \<open>
  For a new version that is three dotted numbers and nothing else, the rewritten range is
  rewritten to itself.
\<close>

lemma updateRange_idempotent_release:
  assumes "triple_at v = Some (v, [])"
  shows "updateRange (updateRange r v) v = updateRange r v"
proof (induction "length r" arbitrary: r rule: less_induct)
  case less
  note nd = triple_chars [OF assms]
  show ?case
  proof (cases "exec r")
    case None
    then have "updateRange r v = r" by (simp add: updateRange_unfold [OF nd, of r])
    then show ?thesis by simp
  next
    case (Some x)
    then obtain sk m cap rest where e: "exec r = Some (sk, m, cap, rest)" by (cases x) auto
    let ?w = "updateRange rest v"
    have u: "updateRange r v = sk @ v @ ?w"
      using e by (simp add: updateRange_unfold [OF nd, of r])
    from exec_split [OF e] have "version_re_at (m @ rest) = Some (m, cap, rest)" by simp
    from updateRange_boundary [OF nd version_re_at_boundary [OF this]] have "boundary ?w" .
    from exec_replace_match [OF e version_re_at_triple [OF assms this]]
    have "exec (sk @ v @ ?w) = Some (sk, v, None, ?w)" .
    then have "updateRange (sk @ v @ ?w) v = sk @ v @ updateRange ?w v"
      by (simp add: updateRange_unfold [OF nd, of "sk @ v @ ?w"])
    moreover from less [OF exec_shorter [OF e]] have "updateRange ?w v = ?w" .
    ultimately show ?thesis by (simp add: u)
  qed
qed

text \<open>
  A range whose tokens each reach the end of their line: after every match of the pattern
  comes the end of the string or a line terminator.
\<close>

definition ends_line :: "string \<Rightarrow> bool" where
  "ends_line s = (s = [] \<or> \<not> not_line_terminator (hd s))"

function tokens_end_lines :: "string \<Rightarrow> bool" where
  "tokens_end_lines s =
     (case exec s of
        None \<Rightarrow> True
      | Some (skipped, m, cap, rest) \<Rightarrow> ends_line rest \<and> tokens_end_lines rest)"
  by pat_completeness auto
termination
  by (relation "measure length") (auto dest: exec_shorter)

declare tokens_end_lines.simps [simp del]

lemma ends_line_boundary: "ends_line s \<Longrightarrow> boundary s"
proof (cases s)
  case Nil
  then show ?thesis by (simp add: boundary_def)
next
  case (Cons c r)
  assume "ends_line s"
  with Cons have nl: "\<not> not_line_terminator c" by (simp add: ends_line_def)
  then have "c \<noteq> CHR ''-''" by (auto simp: not_line_terminator_def is_line_terminator_def)
  with Cons nl show ?thesis
    by (simp add: boundary_def dash_tail_def line_terminator_not_digit)
qed

lemma updateRange_ends_line:
  assumes "CHR ''$'' \<notin> set v" and "ends_line s"
  shows "ends_line (updateRange s v)"
proof (cases s)
  case Nil
  then show ?thesis by (simp add: updateRange_Nil ends_line_def)
next
  case (Cons c r)
  with assms(2) have nl: "\<not> not_line_terminator c" by (simp add: ends_line_def)
  from updateRange_skip [OF assms(1) line_terminator_not_digit [OF nl], of r] Cons nl
  show ?thesis by (simp add: ends_line_def)
qed

text \<open>A text that the pattern matches as a whole is matched again before the end of a line.\<close>

lemma version_re_at_whole:
  assumes "version_re_at v = Some (v, cap, [])" and "ends_line w"
  shows "version_re_at (v @ w) = Some (v, cap, w)"
proof -
  from assms(1) obtain m0 s5 where t: "triple_at v = Some (m0, s5)"
    by (auto simp: version_re_at_def split: option.splits)
  then obtain a b c where m0: "m0 = a @ ''.'' @ b @ ''.'' @ c" and v: "v = m0 @ s5"
    and d: "a \<noteq> []" "b \<noteq> []" "c \<noteq> []"
      "\<forall>x\<in>set a. is_digit x" "\<forall>x\<in>set b. is_digit x" "\<forall>x\<in>set c. is_digit x"
    and s5: "s5 = [] \<or> \<not> is_digit (hd s5)"
    unfolding triple_at_iff by auto
  from assms(2) have w: "w = [] \<or> \<not> is_digit (hd w)"
    by (auto simp: ends_line_def dest: line_terminator_not_digit)
  show ?thesis
  proof (cases "dash_tail s5")
    case None
    with assms(1) t have e: "s5 = []" "cap = None" "m0 = v"
      by (simp_all add: version_re_at_def)
    with t have "triple_at v = Some (v, [])" by simp
    from version_re_at_triple [OF this ends_line_boundary [OF assms(2)]] e show ?thesis by simp
  next
    case (Some r)
    then obtain tl' rest where dt: "dash_tail s5 = Some (tl', rest)" by (cases r) auto
    with assms(1) t have e: "rest = []" "cap = Some tl'" "v = m0 @ tl'"
      by (simp_all add: version_re_at_def)
    from dt e obtain u where u: "tl' = CHR ''-'' # u" "u \<noteq> []" "s5 = tl'"
      "\<forall>x\<in>set u. not_line_terminator x"
      by (auto simp: dash_tail_iff)
    have nd: "\<not> is_digit (CHR ''-'')" by (simp add: is_digit_def)
    have "triple_at (v @ w) = Some (m0, tl' @ w)"
      unfolding triple_at_iff using m0 e d u nd by auto
    moreover have "dash_tail (tl' @ w) = Some (tl', w)"
      unfolding dash_tail_iff using u assms(2) by (auto simp: ends_line_def)
    ultimately show ?thesis using e by (simp add: version_re_at_def)
  qed
qed

lemma updateRange_idempotent_lines:
  assumes v: "version_re_at v = Some (v, cap, [])" and nd: "CHR ''$'' \<notin> set v"
  shows "tokens_end_lines r \<Longrightarrow> updateRange (updateRange r v) v = updateRange r v"
proof (induction "length r" arbitrary: r rule: less_induct)
  case less
  show ?case
  proof (cases "exec r")
    case None
    then have "updateRange r v = r" by (simp add: updateRange_unfold [OF nd, of r])
    then show ?thesis by simp
  next
    case (Some x)
    then obtain sk m c rest where e: "exec r = Some (sk, m, c, rest)" by (cases x) auto
    with less.prems have el: "ends_line rest" and tl: "tokens_end_lines rest"
      by (simp_all add: tokens_end_lines.simps [of r])
    let ?w = "updateRange rest v"
    have u: "updateRange r v = sk @ v @ ?w"
      using e by (simp add: updateRange_unfold [OF nd, of r])
    from exec_replace_match [OF e version_re_at_whole [OF v updateRange_ends_line [OF nd el]]]
    have "exec (sk @ v @ ?w) = Some (sk, v, cap, ?w)" .
    then have "updateRange (sk @ v @ ?w) v = sk @ v @ updateRange ?w v"
      by (simp add: updateRange_unfold [OF nd, of "sk @ v @ ?w"])
    moreover from less.hyps [OF exec_shorter [OF e] tl] have "updateRange ?w v = ?w" .
    ultimately show ?thesis by (simp add: u)
  qed
qed

text \<open>
  C8, amended.  Rewriting is idempotent for every range string when the new version is
  three dotted numbers and nothing else (a release version); and for a new version with a
  prerelease (a text without \<open>$\<close> that the pattern matches as a whole) when every token of
  the range reaches the end of its line, as in a range of one comparator.
\<close>

theorem updateRange_idempotent_amended:
  assumes "triple_at v = Some (v, []) \<or>
     (version_re_at v = Some (v, cap, []) \<and> CHR ''$'' \<notin> set v \<and> tokens_end_lines r)"
  shows "updateRange (updateRange r v) v = updateRange r v"
  using assms
proof
  assume "triple_at v = Some (v, [])"
  then show ?thesis by (rule updateRange_idempotent_release)
next
  assume "version_re_at v = Some (v, cap, []) \<and> CHR ''$'' \<notin> set v \<and> tokens_end_lines r"
  then show ?thesis by (blast intro: updateRange_idempotent_lines)
qed

theorem updateRange_idempotent_amended_witness:
  "updateRange (updateRange ''>=1.2.3 <2.0.0'' ''1.5.0'') ''1.5.0'' =
     updateRange ''>=1.2.3 <2.0.0'' ''1.5.0'' \<and>
   updateRange (updateRange ''^1.2.3-beta.1'' ''1.5.0-rc.1'') ''1.5.0-rc.1'' =
     updateRange ''^1.2.3-beta.1'' ''1.5.0-rc.1''"
proof -
  have a: "triple_at ''1.5.0'' = Some (''1.5.0'', [])" by code_simp
  have b: "version_re_at ''1.5.0-rc.1'' = Some (''1.5.0-rc.1'', Some ''-rc.1'', [])" by code_simp
  have c: "CHR ''$'' \<notin> set ''1.5.0-rc.1''" by simp
  have d: "tokens_end_lines ''^1.2.3-beta.1''" by code_simp
  from a have 1: "updateRange (updateRange ''>=1.2.3 <2.0.0'' ''1.5.0'') ''1.5.0'' =
     updateRange ''>=1.2.3 <2.0.0'' ''1.5.0''"
    by (intro updateRange_idempotent_amended disjI1)
  from b c d have 2: "updateRange (updateRange ''^1.2.3-beta.1'' ''1.5.0-rc.1'') ''1.5.0-rc.1'' =
     updateRange ''^1.2.3-beta.1'' ''1.5.0-rc.1''"
    by (intro updateRange_idempotent_amended disjI2 conjI)
  from 1 2 show ?thesis by (rule conjI)
qed


section \<open>Properties of versions\<close>

lemma below_ten: "(d::nat) < 10 \<Longrightarrow> d \<in> {0, 1, 2, 3, 4, 5, 6, 7, 8, 9}"
  by auto

lemma digit_char_digit: "d < 10 \<Longrightarrow> is_digit (digit_char d)"
  by (drule below_ten) (auto simp: digit_char_def is_digit_def)

lemma digit_val_digit_char: "d < 10 \<Longrightarrow> digit_val (digit_char d) = d"
  by (drule below_ten) (auto simp: digit_char_def digit_val_def)

lemma digit_char_zero: "d < 10 \<Longrightarrow> digit_char d = CHR ''0'' \<longleftrightarrow> d = 0"
  by (drule below_ten) (auto simp: digit_char_def)

lemma string_of_nat_not_Nil: "string_of_nat n \<noteq> []"
  by (subst string_of_nat.simps) simp

lemma string_of_nat_digits: "\<forall>c\<in>set (string_of_nat n). is_digit c"
proof (induction n rule: string_of_nat.induct)
  case (1 n)
  show ?case
  proof (cases "n < 10")
    case True
    then show ?thesis by (subst string_of_nat.simps) (simp add: digit_char_digit)
  next
    case False
    with 1 show ?thesis by (subst string_of_nat.simps) (simp add: digit_char_digit)
  qed
qed

lemma string_of_nat_hd: "hd (string_of_nat n) = CHR ''0'' \<longleftrightarrow> n = 0"
proof (induction n rule: string_of_nat.induct)
  case (1 n)
  show ?case
  proof (cases "n < 10")
    case True
    then show ?thesis by (subst string_of_nat.simps) (simp add: digit_char_zero)
  next
    case False
    then have "n div 10 \<noteq> 0" by simp
    with 1 False show ?thesis
      by (subst string_of_nat.simps) (simp add: string_of_nat_not_Nil)
  qed
qed

lemma string_of_nat_zero: "string_of_nat 0 = ''0''"
  by (subst string_of_nat.simps) (simp add: digit_char_def)

lemma string_of_nat_numeric: "numeric_identifier (string_of_nat n)"
  using string_of_nat_digits [of n] string_of_nat_hd [of n]
  by (auto simp: numeric_identifier_def string_of_nat_not_Nil string_of_nat_zero list_all_iff)

lemma nat_of_string_snoc: "nat_of_string (s @ [c]) = 10 * nat_of_string s + digit_val c"
  by (simp add: nat_of_string_def)

lemma nat_of_string_of_nat: "nat_of_string (string_of_nat n) = n"
proof (induction n rule: string_of_nat.induct)
  case (1 n)
  show ?case
  proof (cases "n < 10")
    case True
    then show ?thesis
      by (subst string_of_nat.simps) (simp add: nat_of_string_def digit_val_digit_char)
  next
    case False
    with 1 show ?thesis
      by (subst string_of_nat.simps) (simp add: nat_of_string_snoc digit_val_digit_char)
  qed
qed

lemma string_of_nat_length: "n < 10 ^ k \<Longrightarrow> 0 < k \<Longrightarrow> length (string_of_nat n) \<le> k"
proof (induction n arbitrary: k rule: string_of_nat.induct)
  case (1 n)
  show ?case
  proof (cases "n < 10")
    case True
    with 1(3) show ?thesis by (subst string_of_nat.simps) simp
  next
    case False
    with 1(2) have k: "1 < k" by (cases "k = 1") (use 1(3) in auto)
    then obtain j where j: "k = Suc j" "0 < j" by (cases k) auto
    with 1(2) have "n div 10 < 10 ^ j" by (simp add: less_mult_imp_div_less mult.commute)
    from 1(1) [OF False this j(2)] False j show ?thesis
      by (subst string_of_nat.simps) simp
  qed
qed

lemma string_of_nat_safe_length:
  "n \<le> MAX_SAFE_INTEGER \<Longrightarrow> length (string_of_nat n) \<le> MAX_SAFE_COMPONENT_LENGTH"
  using string_of_nat_length [of n 16]
  by (simp add: MAX_SAFE_INTEGER_def MAX_SAFE_COMPONENT_LENGTH_def)

lemma digits1_string_of_nat:
  "r = [] \<or> \<not> is_digit (hd r) \<Longrightarrow> digits1 (string_of_nat n @ r) = Some (string_of_nat n, r)"
  unfolding digits1_iff using string_of_nat_digits [of n] by (simp add: string_of_nat_not_Nil)


text \<open>A parsed version has numbers up to \<open>MAX_SAFE_INTEGER\<close>.\<close>

definition safe :: "SemVer \<Rightarrow> bool" where
  "safe p = (major p \<le> MAX_SAFE_INTEGER \<and> minor p \<le> MAX_SAFE_INTEGER \<and>
             patch p \<le> MAX_SAFE_INTEGER)"

lemma SemVer_new_safe: "SemVer_new x = Inr p \<Longrightarrow> safe p"
  by (auto simp: SemVer_new_def safe_def split: option.splits if_splits prod.splits)

lemma parse_SemVer_new: "parse x = Some p \<Longrightarrow> SemVer_new x = Inr p"
  by (auto simp: parse_def split: option.splits if_splits sum.splits)

lemma parse_safe: "parse x = Some p \<Longrightarrow> safe p"
  by (rule SemVer_new_safe [OF parse_SemVer_new])

lemma digit_not_space: "is_digit c \<Longrightarrow> \<not> is_space c"
  by (auto simp: is_digit_def is_space_def)

lemma trim_no_space: "\<forall>c\<in>set s. \<not> is_space c \<Longrightarrow> trim s = s"
proof -
  assume a: "\<forall>c\<in>set s. \<not> is_space c"
  then have "dropWhile is_space s = s" by (cases s) auto
  moreover from a have "dropWhile is_space (rev s) = rev s" by (cases "rev s") auto
  ultimately show ?thesis by (simp add: trim_def)
qed

text \<open>The text \<open>a.b.c\<close> of three numbers.\<close>

definition dotted :: "nat \<Rightarrow> nat \<Rightarrow> nat \<Rightarrow> string" where
  "dotted a b c = string_of_nat a @ ''.'' @ string_of_nat b @ ''.'' @ string_of_nat c"

lemma version_of_dotted:
  "version_of p = dotted (major p) (minor p) (patch p) @
     (if prerelease p = [] then [] else ''-'' @ join ''.'' (map identifier_string (prerelease p)))"
  by (simp add: version_of_def dotted_def)

lemma dot_not_digit: "\<not> is_digit (CHR ''.'')"
  by (simp add: is_digit_def)

lemma dotted_hd_digit: "is_digit (hd (dotted a b c @ r))"
  using string_of_nat_digits [of a] string_of_nat_not_Nil [of a]
  by (cases "string_of_nat a") (auto simp: dotted_def)

lemma strip_v_dotted: "strip_v (dotted a b c @ r) = dotted a b c @ r"
proof -
  have "hd (dotted a b c @ r) \<noteq> CHR ''v''"
    using dotted_hd_digit [of a b c r] by (auto simp: is_digit_def)
  moreover have "dotted a b c @ r \<noteq> []"
    by (simp add: dotted_def string_of_nat_not_Nil)
  ultimately show ?thesis by (cases "dotted a b c @ r") (auto simp: strip_v_def)
qed

lemma match_FULL_dotted:
  assumes "r = [] \<or> \<not> is_digit (hd r)"
  shows "match_FULL (dotted a b c @ r) =
     (case tail_groups r of None \<Rightarrow> None
      | Some (pre, bld) \<Rightarrow> Some (string_of_nat a, string_of_nat b, string_of_nat c, pre, bld))"
proof -
  have 1: "digits1 (string_of_nat a @ ''.'' @ string_of_nat b @ ''.'' @ string_of_nat c @ r) =
      Some (string_of_nat a, ''.'' @ string_of_nat b @ ''.'' @ string_of_nat c @ r)"
    by (rule digits1_string_of_nat) (simp add: dot_not_digit)
  have 2: "digits1 (string_of_nat b @ ''.'' @ string_of_nat c @ r) =
      Some (string_of_nat b, ''.'' @ string_of_nat c @ r)"
    by (rule digits1_string_of_nat) (simp add: dot_not_digit)
  have 3: "digits1 (string_of_nat c @ r) = Some (string_of_nat c, r)"
    by (rule digits1_string_of_nat) (rule assms)
  have "match_FULL (dotted a b c @ r) =
      (case digits1 (dotted a b c @ r) of None \<Rightarrow> None | Some (a, s1) \<Rightarrow>
      (case lit (CHR ''.'') s1 of None \<Rightarrow> None | Some s2 \<Rightarrow>
      (case digits1 s2 of None \<Rightarrow> None | Some (b, s3) \<Rightarrow>
      (case lit (CHR ''.'') s3 of None \<Rightarrow> None | Some s4 \<Rightarrow>
      (case digits1 s4 of None \<Rightarrow> None | Some (c, s5) \<Rightarrow>
         (if \<not> (numeric_identifier a \<and> numeric_identifier b \<and> numeric_identifier c) then None
          else (case tail_groups s5 of
                  None \<Rightarrow> None
                | Some (pre, bld) \<Rightarrow> Some (a, b, c, pre, bld))))))))"
    by (simp only: match_FULL_def strip_v_dotted)
  also have "\<dots> = (case tail_groups r of None \<Rightarrow> None
      | Some (pre, bld) \<Rightarrow> Some (string_of_nat a, string_of_nat b, string_of_nat c, pre, bld))"
    using 1 2 3 by (simp add: dotted_def lit_def string_of_nat_numeric)
  finally show ?thesis .
qed

lemma dotted_length:
  assumes "a \<le> MAX_SAFE_INTEGER" "b \<le> MAX_SAFE_INTEGER" "c \<le> MAX_SAFE_INTEGER"
  shows "length (dotted a b c) \<le> 50"
  using assms [THEN string_of_nat_safe_length]
  by (simp add: dotted_def MAX_SAFE_COMPONENT_LENGTH_def)

lemma dotted_no_space: "\<forall>x\<in>set (dotted a b c). \<not> is_space x"
  using string_of_nat_digits [of a] string_of_nat_digits [of b] string_of_nat_digits [of c]
  by (auto simp: dotted_def digit_not_space) (simp add: is_space_def)

text \<open>
  A release version read back from its text: \<open>new SemVer(v.version)\<close> and
  \<open>semver.parse(v.version)\<close> give the version again, without its build.
\<close>

lemma SemVer_new_release:
  assumes "safe p" and "prerelease p = []"
  shows "SemVer_new (Some (version_of p)) = Inr (p\<lparr>build := []\<rparr>)"
proof -
  from assms(1) have s: "major p \<le> MAX_SAFE_INTEGER" "minor p \<le> MAX_SAFE_INTEGER"
    "patch p \<le> MAX_SAFE_INTEGER"
    by (simp_all add: safe_def)
  have v: "version_of p = dotted (major p) (minor p) (patch p)"
    using assms(2) by (simp add: version_of_dotted)
  have l: "\<not> length (dotted (major p) (minor p) (patch p)) > MAX_LENGTH"
    using dotted_length [OF s] by (simp add: MAX_LENGTH_def)
  have t: "trim (dotted (major p) (minor p) (patch p)) = dotted (major p) (minor p) (patch p)"
    by (rule trim_no_space [OF dotted_no_space])
  have m: "match_FULL (dotted (major p) (minor p) (patch p)) =
      Some (string_of_nat (major p), string_of_nat (minor p), string_of_nat (patch p), None, None)"
    using match_FULL_dotted [of "[]" "major p" "minor p" "patch p"] by (simp add: tail_groups_def)
  show ?thesis
    using s assms(2) by (simp add: SemVer_new_def v l t m nat_of_string_of_nat)
qed

lemma parse_release:
  assumes "safe p" and "prerelease p = []"
  shows "parse (Some (version_of p)) = Some (p\<lparr>build := []\<rparr>)"
proof -
  from assms(1) have s: "major p \<le> MAX_SAFE_INTEGER" "minor p \<le> MAX_SAFE_INTEGER"
    "patch p \<le> MAX_SAFE_INTEGER"
    by (simp_all add: safe_def)
  have v: "version_of p = dotted (major p) (minor p) (patch p)"
    using assms(2) by (simp add: version_of_dotted)
  have l: "\<not> length (version_of p) > MAX_LENGTH"
    using dotted_length [OF s] by (simp add: MAX_LENGTH_def v)
  have m: "match_FULL (version_of p) \<noteq> None"
    using match_FULL_dotted [of "[]" "major p" "minor p" "patch p"] by (simp add: tail_groups_def v)
  show ?thesis
    using l m by (simp add: parse_def SemVer_new_release [OF assms])
qed

lemma isVersionPrerelease_release:
  "safe p \<Longrightarrow> prerelease p = [] \<Longrightarrow> \<not> isVersionPrerelease (Some (version_of p))"
  by (simp add: isVersionPrerelease_def parse_release)


lemma set_strip_v: "set (strip_v s) \<subseteq> set s"
  by (cases s) (auto simp: strip_v_def)

lemma set_trim: "set (trim s) \<subseteq> set s"
proof -
  have "set (trim s) \<subseteq> set (rev (dropWhile is_space s))"
    unfolding trim_def set_rev by (auto dest: set_dropWhileD)
  also have "\<dots> \<subseteq> set s" by (auto dest: set_dropWhileD)
  finally show ?thesis .
qed

lemma match_FULL_SomeD:
  assumes "match_FULL s = Some (a, b, c, pre, bld)"
  shows "\<exists>s5. strip_v s = a @ ''.'' @ b @ ''.'' @ c @ s5 \<and> tail_groups s5 = Some (pre, bld) \<and>
     numeric_identifier a \<and> numeric_identifier b \<and> numeric_identifier c"
proof -
  from assms obtain a' s1 where 1: "digits1 (strip_v s) = Some (a', s1)"
    by (auto simp: match_FULL_def split: option.splits)
  with assms obtain s2 where 2: "lit (CHR ''.'') s1 = Some s2"
    by (auto simp: match_FULL_def split: option.splits)
  with assms 1 obtain b' s3 where 3: "digits1 s2 = Some (b', s3)"
    by (auto simp: match_FULL_def split: option.splits)
  with assms 1 2 obtain s4 where 4: "lit (CHR ''.'') s3 = Some s4"
    by (auto simp: match_FULL_def split: option.splits)
  with assms 1 2 3 obtain c' s5 where 5: "digits1 s4 = Some (c', s5)"
    by (auto simp: match_FULL_def split: option.splits)
  from assms 1 2 3 4 5 have n: "numeric_identifier a' \<and> numeric_identifier b' \<and> numeric_identifier c'"
    and t: "tail_groups s5 = Some (pre, bld)" and e: "a' = a" "b' = b" "c' = c"
    by (auto simp: match_FULL_def split: option.splits if_splits)
  from 1 2 3 4 5 have "strip_v s = a' @ ''.'' @ b' @ ''.'' @ c' @ s5"
    unfolding digits1_iff lit_iff by auto
  with n t e show ?thesis by auto
qed

lemma match_FULL_prerelease_dash:
  assumes "match_FULL s = Some (a, b, c, Some pre, bld)"
  shows "CHR ''-'' \<in> set s"
proof -
  from match_FULL_SomeD [OF assms] obtain s5 where s: "strip_v s = a @ ''.'' @ b @ ''.'' @ c @ s5"
    and t: "tail_groups s5 = Some (Some pre, bld)"
    by blast
  from t have "CHR ''-'' \<in> set s5"
    by (cases s5) (auto simp: tail_groups_def Let_def split: if_splits list.splits)
  with s have "CHR ''-'' \<in> set (strip_v s)" by simp
  with set_strip_v show ?thesis by blast
qed

lemma SemVer_new_no_dash:
  assumes "SemVer_new (Some s) = Inr p" and "CHR ''-'' \<notin> set s"
  shows "prerelease p = []"
proof -
  from assms(1) obtain a b c pre bld where m: "match_FULL (trim s) = Some (a, b, c, pre, bld)"
    and p: "prerelease p = (case pre of None \<Rightarrow> [] | Some x \<Rightarrow> prerelease_ids x)"
    by (auto simp: SemVer_new_def split: option.splits if_splits)
  show ?thesis
  proof (cases pre)
    case None
    with p show ?thesis by simp
  next
    case (Some x)
    with m match_FULL_prerelease_dash have "CHR ''-'' \<in> set (trim s)" by blast
    with set_trim assms(2) show ?thesis by blast
  qed
qed

lemma dot_component_digits:
  "dot_component s = Some (d, r) \<Longrightarrow> \<forall>c\<in>set d. is_digit c"
  by (auto simp: dot_component_def digits1_iff split: option.splits if_splits)

lemma coerce_groups_digits:
  assumes "coerce_groups d r = (m1, m2, m3)" and "\<forall>c\<in>set d. is_digit c"
  shows "(\<forall>c\<in>set m1. is_digit c) \<and> (\<forall>x. m2 = Some x \<longrightarrow> (\<forall>c\<in>set x. is_digit c)) \<and>
         (\<forall>x. m3 = Some x \<longrightarrow> (\<forall>c\<in>set x. is_digit c))"
  using assms
  by (auto simp: coerce_groups_def split: option.splits prod.splits dest: dot_component_digits)

lemma coerce_match_digits:
  "coerce_match s = Some (m1, m2, m3) \<Longrightarrow>
     (\<forall>c\<in>set m1. is_digit c) \<and> (\<forall>x. m2 = Some x \<longrightarrow> (\<forall>c\<in>set x. is_digit c)) \<and>
     (\<forall>x. m3 = Some x \<longrightarrow> (\<forall>c\<in>set x. is_digit c))"
proof (induction s rule: coerce_match.induct)
  case (1 s)
  from "1.prems" obtain d r where d: "digits1 (dropWhile (\<lambda>c. \<not> is_digit c) s) = Some (d, r)"
    by (subst (asm) coerce_match.simps) (auto split: option.splits)
  show ?case
  proof (cases "length d \<le> MAX_SAFE_COMPONENT_LENGTH")
    case True
    with "1.prems" d have "coerce_groups d r = (m1, m2, m3)"
      by (subst (asm) coerce_match.simps) simp
    moreover from d have "\<forall>c\<in>set d. is_digit c" by (simp add: digits1_iff)
    ultimately show ?thesis by (rule coerce_groups_digits)
  next
    case False
    with "1.prems" d have "coerce_match r = Some (m1, m2, m3)"
      by (subst (asm) coerce_match.simps) simp
    from "1.IH" [OF d refl False this] show ?thesis .
  qed
qed

text \<open>What \<open>semver.coerce\<close> returns is a release version.\<close>

lemma coerce_release:
  assumes "coerce s = Some c"
  shows "safe c \<and> prerelease c = []"
proof -
  from assms obtain m1 m2 m3 where m: "coerce_match s = Some (m1, m2, m3)"
    and p: "parse (Some (m1 @ ''.'' @ (case m2 of None \<Rightarrow> ''0'' | Some x \<Rightarrow> x) @ ''.'' @
        (case m3 of None \<Rightarrow> ''0'' | Some x \<Rightarrow> x))) = Some c"
    by (auto simp: coerce_def split: option.splits)
  have nd: "\<not> is_digit (CHR ''-'')" by (simp add: is_digit_def)
  from coerce_match_digits [OF m] nd
  have "CHR ''-'' \<notin> set (m1 @ ''.'' @ (case m2 of None \<Rightarrow> ''0'' | Some x \<Rightarrow> x) @ ''.'' @
        (case m3 of None \<Rightarrow> ''0'' | Some x \<Rightarrow> x))"
    by (auto split: option.splits)
  from SemVer_new_no_dash [OF parse_SemVer_new [OF p] this] parse_safe [OF p]
  show ?thesis by simp
qed

text \<open>
  The candidate of \<open>findVersion\<close> under \<open>useRel\<close>: \<open>null\<close>, or a version that is not a
  prerelease.
\<close>

definition release_candidate :: "string option \<Rightarrow> bool" where
  "release_candidate t = (case t of None \<Rightarrow> True | Some s \<Rightarrow> \<not> isVersionPrerelease (Some s))"

lemma release_candidate_version:
  "parse (Some v) = Some parsed \<Longrightarrow> prerelease parsed = [] \<Longrightarrow>
     release_candidate (Some (version_of parsed))"
  using parse_safe [of "Some v" parsed]
  by (simp add: release_candidate_def isVersionPrerelease_release)

lemma findVersion_step_release:
  assumes "useRel opts" and "findVersion_step data opts st v = Inr st'"
    and "release_candidate (fst st)"
  shows "release_candidate (fst st')"
proof -
  from assms(2) obtain parsed where p: "parse (Some v) = Some parsed"
    by (auto simp: findVersion_step_def split: option.splits)
  show ?thesis
  proof (cases "prerelease parsed = []")
    case False
    with assms(1,2) p have "st' = st"
      by (simp add: findVersion_step_def skip_prerelease_def)
    with assms(3) show ?thesis by simp
  next
    case True
    note rc = release_candidate_version [OF p True]
    from assms(2) p have "fst st' = fst st \<or> fst st' = Some (version_of parsed)"
      by (auto simp: findVersion_step_def pick_greatest_def pick_latest_def
          split: if_splits sum.splits option.splits)
    with assms(3) rc show ?thesis by auto
  qed
qed

lemma findVersion_loop_release:
  assumes "useRel opts"
  shows "findVersion_loop data opts st vs = Inr st' \<Longrightarrow> release_candidate (fst st) \<Longrightarrow>
     release_candidate (fst st')"
proof (induction vs arbitrary: st)
  case Nil
  then show ?case by simp
next
  case (Cons v vs)
  from Cons.prems(1) obtain st1 where 1: "findVersion_step data opts st v = Inr st1"
    and 2: "findVersion_loop data opts st1 vs = Inr st'"
    by (auto split: sum.splits)
  from findVersion_step_release [OF assms 1 Cons.prems(2)] have "release_candidate (fst st1)" .
  from Cons.IH [OF 2 this] show ?case .
qed

lemma findVersion_release:
  assumes "useRel opts" and "findVersion data vs opts = Inr version"
  shows "\<not> isVersionPrerelease version"
proof -
  from assms(2) obtain st' where l: "findVersion_loop data opts (rangeToVersion (range opts), 0) vs = Inr st'"
    and v: "version = (if fst st' = Some [] then None else fst st')"
    by (auto simp: findVersion_def split: sum.splits prod.splits)
  have "release_candidate (rangeToVersion (range opts))"
    by (auto simp: release_candidate_def rangeToVersion_def isVersionPrerelease_release
        split: option.splits dest: coerce_release)
  with findVersion_loop_release [OF assms(1) l] have "release_candidate (fst st')" by simp
  with v have "release_candidate version"
    by (auto simp: release_candidate_def)
  then show ?thesis
    by (cases version) (simp_all add: release_candidate_def isVersionPrerelease_def parse_def)
qed

text \<open>
  C5.  When \<open>useRel\<close> holds, what \<open>findNewVersion\<close> returns (from \<open>findVersion\<close> or from
  the dist-tag) is never a prerelease version; the exception that the specification
  allows is never taken, since the candidate starts from the coerced range, which has no
  prerelease.
\<close>

theorem release_only_never_prerelease:
  assumes "useRel opts" and "findNewVersion data opts = Inr (Some v)"
  shows "\<not> isVersionPrerelease (Some v)"
proof (cases "range opts = ''*''")
  case True
  with assms(2) have "v = ''*''" by (simp add: findNewVersion_def)
  moreover have "\<not> isVersionPrerelease (Some ''*'')" by code_simp
  ultimately show ?thesis by simp
next
  case False
  with assms(2) obtain version where
    fv: "findVersion data (filter is_valid (versions data)) opts = Inr version"
    by (auto simp: findNewVersion_def split: sum.splits)
  note np = findVersion_release [OF assms(1) fv]
  show ?thesis
  proof (cases "useGreatest opts")
    case True
    with assms(2) False fv np show ?thesis by (simp add: findNewVersion_def)
  next
    case ng: False
    from assms(2) False fv ng obtain tags where tags: "dist_tags data = Some tags"
      by (auto simp: findNewVersion_def split: option.splits)
    from assms(2) False fv ng tags have
      "Some v = version \<or> (Some v = tags ''latest'' \<and> \<not> isVersionPrerelease (tags ''latest''))"
      using assms(1)
      by (auto simp: findNewVersion_def Let_def split: option.splits sum.splits if_splits)
    with np show ?thesis by auto
  qed
qed

theorem release_only_never_prerelease_witness:
  "findNewVersion
     \<lparr> name = ''pkg'', versions = [''1.2.3'', ''1.3.0-beta.1'', ''1.3.0'', ''2.0.0-rc.1''],
       dist_tags = Some [''latest'' \<mapsto> ''2.0.0-rc.1''], time = None, err = None \<rparr>
     \<lparr> usePre = True, useRel = True, useGreatest = False,
       semvers = [''patch'', ''minor'', ''major''], range = ''^1.2.3'' \<rparr> = Inr (Some ''1.3.0'') \<and>
   \<not> isVersionPrerelease (Some ''1.3.0'')"
proof -
  let ?data = "\<lparr> name = ''pkg'', versions = [''1.2.3'', ''1.3.0-beta.1'', ''1.3.0'', ''2.0.0-rc.1''],
       dist_tags = Some [''latest'' \<mapsto> ''2.0.0-rc.1''], time = None, err = None \<rparr>"
  let ?opts = "\<lparr> usePre = True, useRel = True, useGreatest = False,
       semvers = [''patch'', ''minor'', ''major''], range = ''^1.2.3'' \<rparr>"
  have r: "findNewVersion ?data ?opts = Inr (Some ''1.3.0'')" by code_simp
  have u: "useRel ?opts" by simp
  from r release_only_never_prerelease [OF u r] show ?thesis by (rule conjI)
qed


section \<open>The ceiling of the selection\<close>

text \<open>The three lists \<open>semvers\<close> that the batch step passes.\<close>

definition ceiling :: "string list \<Rightarrow> bool" where
  "ceiling sv = (sv = [''patch''] \<or> sv = [''patch'', ''minor''] \<or>
                 sv = [''patch'', ''minor'', ''major''])"

text \<open>
  What the accepted classes allow between the baseline and a candidate: a prerelease only
  if prereleases are in use, another major only under the full ceiling, another minor
  only from patch+minor on.
\<close>

definition within :: "opts \<Rightarrow> SemVer \<Rightarrow> SemVer \<Rightarrow> bool" where
  "within opts x y =
     ((findVersion_usePre opts \<or> (prerelease x = [] \<and> prerelease y = [])) \<and>
      (''major'' \<in> set (semvers opts) \<or> major x = major y) \<and>
      (''minor'' \<in> set (semvers opts) \<or> minor x = minor y))"

lemma within_refl: "prerelease x = [] \<Longrightarrow> within opts x x"
  by (simp add: within_def)

text \<open>The difference classes, by what they say.\<close>

definition plain :: "string \<Rightarrow> bool" where
  "plain d = (d = ''major'' \<or> d = ''minor'' \<or> d = ''patch'')"

definition majorish :: "string \<Rightarrow> bool" where
  "majorish d = (d = ''major'' \<or> d = ''premajor'')"

definition patchish :: "string \<Rightarrow> bool" where
  "patchish d = (d = ''patch'' \<or> d = ''prepatch'' \<or> d = ''prerelease'')"

definition diff_class :: "string \<Rightarrow> bool" where
  "diff_class d = (d = ''major'' \<or> d = ''minor'' \<or> d = ''patch'' \<or> d = ''premajor'' \<or>
                   d = ''preminor'' \<or> d = ''prepatch'' \<or> d = ''prerelease'')"

lemma diff_SemVer_facts:
  assumes "diff_SemVer x y = Some d"
  shows "diff_class d"
    and "plain d \<longleftrightarrow> prerelease x = [] \<and> prerelease y = []"
    and "majorish d \<longleftrightarrow> major x \<noteq> major y"
    and "patchish d \<longleftrightarrow> major x = major y \<and> minor x = minor y"
proof -
  consider (a) "major x \<noteq> major y" | (b) "major x = major y" "minor x \<noteq> minor y"
    | (c) "major x = major y" "minor x = minor y"
    by blast
  then have "diff_class d \<and> (plain d \<longleftrightarrow> prerelease x = [] \<and> prerelease y = []) \<and>
      (majorish d \<longleftrightarrow> major x \<noteq> major y) \<and> (patchish d \<longleftrightarrow> major x = major y \<and> minor x = minor y)"
  proof cases
    case a
    with assms have "d = (if prerelease x \<noteq> [] \<or> prerelease y \<noteq> [] then ''premajor'' else ''major'')"
      by (auto simp: diff_SemVer_def Let_def)
    with a show ?thesis by (simp add: diff_class_def plain_def majorish_def patchish_def)
  next
    case b
    with assms have "d = (if prerelease x \<noteq> [] \<or> prerelease y \<noteq> [] then ''preminor'' else ''minor'')"
      by (auto simp: diff_SemVer_def Let_def)
    with b show ?thesis by (simp add: diff_class_def plain_def majorish_def patchish_def)
  next
    case c
    with assms have "d = (if prerelease x \<noteq> [] \<or> prerelease y \<noteq> []
        then (if patch x \<noteq> patch y then ''prepatch'' else ''prerelease'') else ''patch'')"
      by (auto simp: diff_SemVer_def Let_def split: if_splits)
    with c show ?thesis by (simp add: diff_class_def plain_def majorish_def patchish_def)
  qed
  then show "diff_class d"
    and "plain d \<longleftrightarrow> prerelease x = [] \<and> prerelease y = []"
    and "majorish d \<longleftrightarrow> major x \<noteq> major y"
    and "patchish d \<longleftrightarrow> major x = major y \<and> minor x = minor y"
    by blast+
qed

lemma accepted_classes:
  "d \<in> set (findVersion_semvers opts) \<longleftrightarrow>
     d \<in> set (semvers opts) \<or>
     (findVersion_usePre opts \<and>
        (d = ''prerelease'' \<or> (d = ''prepatch'' \<and> ''patch'' \<in> set (semvers opts)) \<or>
         (d = ''preminor'' \<and> ''minor'' \<in> set (semvers opts)) \<or>
         (d = ''premajor'' \<and> ''major'' \<in> set (semvers opts))))"
  by (simp add: findVersion_semvers_def Let_def) blast

lemma ceiling_cases:
  assumes "ceiling sv"
  obtains "set sv = {''patch''}" | "set sv = {''patch'', ''minor''}"
    | "set sv = {''patch'', ''minor'', ''major''}"
  using assms by (auto simp: ceiling_def)

lemma accepted_facts:
  assumes "ceiling (semvers opts)" and "d \<in> set (findVersion_semvers opts)"
  shows "(\<not> findVersion_usePre opts \<longrightarrow> plain d) \<and>
         (''major'' \<notin> set (semvers opts) \<longrightarrow> \<not> majorish d) \<and>
         (''minor'' \<notin> set (semvers opts) \<longrightarrow> patchish d)"
  using assms(1)
proof (cases rule: ceiling_cases)
  case 1
  with assms(2) have "d = ''patch'' \<or> (findVersion_usePre opts \<and> (d = ''prerelease'' \<or> d = ''prepatch''))"
    unfolding accepted_classes by simp
  then show ?thesis
    by (auto simp: plain_def majorish_def patchish_def)
next
  case 2
  with assms(2) have "d = ''patch'' \<or> d = ''minor'' \<or>
      (findVersion_usePre opts \<and> (d = ''prerelease'' \<or> d = ''prepatch'' \<or> d = ''preminor''))"
    unfolding accepted_classes by simp
  with 2 show ?thesis
    by (auto simp: plain_def majorish_def patchish_def)
next
  case 3
  with assms(2) have "d = ''patch'' \<or> d = ''minor'' \<or> d = ''major'' \<or>
      (findVersion_usePre opts \<and> (d = ''prerelease'' \<or> d = ''prepatch'' \<or> d = ''preminor'' \<or>
         d = ''premajor''))"
    unfolding accepted_classes by simp
  with 3 show ?thesis
    by (auto simp: plain_def majorish_def patchish_def)
qed

lemma accepted_intro:
  assumes "ceiling (semvers opts)" and "diff_class d"
    and "plain d \<or> findVersion_usePre opts"
    and "majorish d \<Longrightarrow> ''major'' \<in> set (semvers opts)"
    and "\<not> patchish d \<Longrightarrow> ''minor'' \<in> set (semvers opts)"
  shows "d \<in> set (findVersion_semvers opts)"
proof -
  from assms(1) have p: "''patch'' \<in> set (semvers opts)" by (auto simp: ceiling_def)
  have 1: "d \<in> set (findVersion_semvers opts)" if "d = ''major''"
    using that assms(4) by (simp add: accepted_classes majorish_def)
  have 2: "d \<in> set (findVersion_semvers opts)" if "d = ''minor''"
    using that assms(5) by (simp add: accepted_classes patchish_def)
  have 3: "d \<in> set (findVersion_semvers opts)" if "d = ''patch''"
    using that p by (simp add: accepted_classes)
  have 4: "d \<in> set (findVersion_semvers opts)" if "d = ''premajor''"
    using that assms(3,4) by (simp add: accepted_classes majorish_def plain_def)
  have 5: "d \<in> set (findVersion_semvers opts)" if "d = ''preminor''"
    using that assms(3,5) by (simp add: accepted_classes patchish_def plain_def)
  have 6: "d \<in> set (findVersion_semvers opts)" if "d = ''prepatch''"
    using that assms(3) p by (simp add: accepted_classes plain_def)
  have 7: "d \<in> set (findVersion_semvers opts)" if "d = ''prerelease''"
    using that assms(3) by (simp add: accepted_classes plain_def)
  from assms(2) show ?thesis
    unfolding diff_class_def
    apply (elim disjE)
          apply (erule 1)
         apply (erule 2)
        apply (erule 3)
       apply (erule 4)
      apply (erule 5)
     apply (erule 6)
    apply (erule 7)
    done
qed

lemma within_step:
  assumes c: "ceiling (semvers opts)" and w: "within opts b x"
    and d: "diff_SemVer x y = Some d" and a: "d \<in> set (findVersion_semvers opts)"
  shows "within opts b y"
  using diff_SemVer_facts(2-4) [OF d] accepted_facts [OF c a] w
  unfolding within_def by metis

lemma within_final:
  assumes c: "ceiling (semvers opts)" and w: "within opts b y" and d: "diff_SemVer b y = Some d"
  shows "d \<in> set (findVersion_semvers opts)"
proof (rule accepted_intro [OF c diff_SemVer_facts(1) [OF d]])
  from c have mn: "''major'' \<in> set (semvers opts) \<Longrightarrow> ''minor'' \<in> set (semvers opts)"
    by (auto simp: ceiling_def)
  show "plain d \<or> findVersion_usePre opts"
    using diff_SemVer_facts(2) [OF d] w unfolding within_def by blast
  show "majorish d \<Longrightarrow> ''major'' \<in> set (semvers opts)"
    using diff_SemVer_facts(3) [OF d] w unfolding within_def by blast
  show "\<not> patchish d \<Longrightarrow> ''minor'' \<in> set (semvers opts)"
    using diff_SemVer_facts(4) [OF d] w mn unfolding within_def by blast
qed


lemma compare_parsed:
  assumes "parse a = Some x" and "parse b = Some y"
  shows "compare a b = Inr (compare_SemVer x y)"
  using assms [THEN parse_SemVer_new] by (simp add: compare_def)

lemma diff_parsed:
  assumes "parse a = Some x" and "parse b = Some y"
  shows "diff a b = Inr (if compare_SemVer x y = 0 then None else diff_SemVer x y)"
  using assms by (simp add: diff_def eq_def compare_parsed [OF assms])

lemma diff_SomeD:
  assumes "diff a b = Inr (Some d)"
  shows "\<exists>x y. parse a = Some x \<and> parse b = Some y \<and> diff_SemVer x y = Some d"
proof -
  from assms obtain c where "eq a b = Inr c"
    by (cases "eq a b") (auto simp: diff_def)
  with assms have "eq a b = Inr False"
    by (cases c) (auto simp: diff_def)
  with assms show ?thesis
    by (auto simp: diff_def split: option.splits)
qed

text \<open>
  The candidate of \<open>findVersion\<close> against the baseline \<open>b\<close>: \<open>null\<close>, or a version that
  parses and lies within what the accepted classes allow.
\<close>

definition candidate_within :: "opts \<Rightarrow> string \<Rightarrow> string option \<Rightarrow> bool" where
  "candidate_within opts b t =
     (case t of
        None \<Rightarrow> True
      | Some s \<Rightarrow>
          (case parse (Some b) of
             None \<Rightarrow> False
           | Some pb \<Rightarrow> (case parse (Some s) of None \<Rightarrow> False | Some ps \<Rightarrow> within opts pb ps)))"

lemma findVersion_step_fst:
  assumes "findVersion_step data opts st v = Inr st'"
  shows "fst st' = fst st \<or>
     (\<exists>parsed d. parse (Some v) = Some parsed \<and> fst st' = Some (version_of parsed) \<and>
        \<not> skip_prerelease opts parsed \<and>
        diff (fst st) (Some (version_of parsed)) = Inr (Some d) \<and>
        d \<in> set (findVersion_semvers opts))"
proof -
  from assms obtain parsed where p: "parse (Some v) = Some parsed"
    by (auto simp: findVersion_step_def split: option.splits)
  show ?thesis
  proof (cases "skip_prerelease opts parsed")
    case True
    with assms p show ?thesis by (simp add: findVersion_step_def)
  next
    case False
    with assms p obtain r where r: "diff (fst st) (Some (version_of parsed)) = Inr r"
      by (auto simp: findVersion_step_def split: sum.splits)
    show ?thesis
    proof (cases "r = None \<or> the r \<notin> set (findVersion_semvers opts)")
      case True
      with assms p False r show ?thesis by (simp add: findVersion_step_def)
    next
      case nt: False
      then obtain d where d: "r = Some d" "d \<in> set (findVersion_semvers opts)" by auto
      from assms p False r nt have "fst st' = fst st \<or> fst st' = Some (version_of parsed)"
        by (auto simp: findVersion_step_def pick_greatest_def pick_latest_def
            split: if_splits sum.splits option.splits)
      with p False r d show ?thesis by auto
    qed
  qed
qed

lemma findVersion_step_within:
  assumes c: "ceiling (semvers opts)" and s: "findVersion_step data opts st v = Inr st'"
    and i: "candidate_within opts b (fst st)"
  shows "candidate_within opts b (fst st')"
proof -
  from findVersion_step_fst [OF s] show ?thesis
  proof
    assume "fst st' = fst st"
    with i show ?thesis by simp
  next
    assume "\<exists>parsed d. parse (Some v) = Some parsed \<and> fst st' = Some (version_of parsed) \<and>
        \<not> skip_prerelease opts parsed \<and>
        diff (fst st) (Some (version_of parsed)) = Inr (Some d) \<and>
        d \<in> set (findVersion_semvers opts)"
    then obtain parsed d where f: "fst st' = Some (version_of parsed)"
      and df: "diff (fst st) (Some (version_of parsed)) = Inr (Some d)"
      and a: "d \<in> set (findVersion_semvers opts)"
      by blast
    from diff_SomeD [OF df] obtain x y where x: "parse (fst st) = Some x"
      and y: "parse (Some (version_of parsed)) = Some y" and dd: "diff_SemVer x y = Some d"
      by blast
    from x obtain t where t: "fst st = Some t" by (cases "fst st") (auto simp: parse_def)
    with i x obtain pb where pb: "parse (Some b) = Some pb" and w: "within opts pb x"
      by (auto simp: candidate_within_def split: option.splits)
    from within_step [OF c w dd a] pb y f show ?thesis
      by (simp add: candidate_within_def)
  qed
qed

lemma findVersion_loop_within:
  assumes c: "ceiling (semvers opts)"
  shows "findVersion_loop data opts st vs = Inr st' \<Longrightarrow> candidate_within opts b (fst st) \<Longrightarrow>
     candidate_within opts b (fst st')"
proof (induction vs arbitrary: st)
  case Nil
  then show ?case by simp
next
  case (Cons v vs)
  from Cons.prems(1) obtain st1 where 1: "findVersion_step data opts st v = Inr st1"
    and 2: "findVersion_loop data opts st1 vs = Inr st'"
    by (auto split: sum.splits)
  from findVersion_step_within [OF c 1 Cons.prems(2)] have "candidate_within opts b (fst st1)" .
  from Cons.IH [OF 2 this] show ?case .
qed

lemma findVersion_loop_None:
  "findVersion_loop data opts st vs = Inr st' \<Longrightarrow> fst st = None \<Longrightarrow> fst st' = None"
proof (induction vs arbitrary: st)
  case Nil
  then show ?case by simp
next
  case (Cons v vs)
  from Cons.prems(1) obtain st1 where 1: "findVersion_step data opts st v = Inr st1"
    and 2: "findVersion_loop data opts st1 vs = Inr st'"
    by (auto split: sum.splits)
  have "diff None x \<noteq> Inr (Some d)" for x d
    by (simp add: diff_def eq_def compare_def SemVer_new_def)
  with findVersion_step_fst [OF 1] Cons.prems(2) have "fst st1 = None" by auto
  from Cons.IH [OF 2 this] show ?case .
qed

lemma baseline_within:
  assumes "rangeToVersion rng = Some b"
  shows "candidate_within opts b (Some b)"
proof -
  from assms obtain c where c: "coerce rng = Some c" and b: "b = version_of c"
    by (auto simp: rangeToVersion_def split: option.splits)
  from coerce_release [OF c] have "safe c" "prerelease c = []" by simp_all
  from parse_release [OF this] b show ?thesis
    by (simp add: candidate_within_def within_refl \<open>prerelease c = []\<close>)
qed

text \<open>
  C1.  Under each of the three ceilings, a version that \<open>findVersion\<close> returns has, from
  the baseline of the range (\<open>rangeToVersion\<close>), either no difference class (it is equal
  to the baseline) or one of the accepted classes (the list \<open>semvers\<close> after the pushes
  of \<open>findVersion\<close>), whatever the order of the versions; computing that class does not
  throw.
\<close>

theorem selected_within_ceiling:
  assumes "ceiling (semvers opts)" and "findVersion data vs opts = Inr (Some v)"
  shows "\<exists>b r. rangeToVersion (range opts) = Some b \<and> diff (Some b) (Some v) = Inr r \<and>
           (r = None \<or> (\<exists>d. r = Some d \<and> d \<in> set (findVersion_semvers opts)))"
proof -
  from assms(2) obtain st' where l: "findVersion_loop data opts (rangeToVersion (range opts), 0) vs = Inr st'"
    and v: "fst st' = Some v"
    by (auto simp: findVersion_def split: sum.splits prod.splits if_splits)
  from findVersion_loop_None [OF l] v obtain b where b: "rangeToVersion (range opts) = Some b"
    by (cases "rangeToVersion (range opts)") auto
  from findVersion_loop_within [OF assms(1) l, of b] baseline_within [OF b] b v
  have "candidate_within opts b (Some v)" by simp
  then obtain pb pv where pb: "parse (Some b) = Some pb" and pv: "parse (Some v) = Some pv"
    and w: "within opts pb pv"
    by (auto simp: candidate_within_def split: option.splits)
  let ?r = "if compare_SemVer pb pv = 0 then None else diff_SemVer pb pv"
  have "diff (Some b) (Some v) = Inr ?r" by (rule diff_parsed [OF pb pv])
  moreover have "?r = None \<or> (\<exists>d. ?r = Some d \<and> d \<in> set (findVersion_semvers opts))"
    using within_final [OF assms(1) w] by (cases "diff_SemVer pb pv") auto
  ultimately show ?thesis using b by blast
qed

theorem selected_within_ceiling_witness:
  "findVersion
     \<lparr> name = ''pkg'', versions = [''2.0.0'', ''1.3.0'', ''1.2.9'', ''1.2.3''],
       dist_tags = Some [''latest'' \<mapsto> ''2.0.0''], time = None, err = None \<rparr>
     [''2.0.0'', ''1.3.0'', ''1.2.9'', ''1.2.3'']
     \<lparr> usePre = False, useRel = False, useGreatest = False,
       semvers = [''patch'', ''minor''], range = ''^1.2.3'' \<rparr> = Inr (Some ''1.3.0'') \<and>
   rangeToVersion ''^1.2.3'' = Some ''1.2.3'' \<and>
   diff (Some ''1.2.3'') (Some ''1.3.0'') = Inr (Some ''minor'') \<and>
   ''minor'' \<in> set (findVersion_semvers
     \<lparr> usePre = False, useRel = False, useGreatest = False,
       semvers = [''patch'', ''minor''], range = ''^1.2.3'' \<rparr>)"
proof -
  let ?data = "\<lparr> name = ''pkg'', versions = [''2.0.0'', ''1.3.0'', ''1.2.9'', ''1.2.3''],
       dist_tags = Some [''latest'' \<mapsto> ''2.0.0''], time = None, err = None \<rparr>"
  let ?opts = "\<lparr> usePre = False, useRel = False, useGreatest = False,
       semvers = [''patch'', ''minor''], range = ''^1.2.3'' \<rparr>"
  have c: "ceiling (semvers ?opts)" by (simp add: ceiling_def)
  have f: "findVersion ?data [''2.0.0'', ''1.3.0'', ''1.2.9'', ''1.2.3''] ?opts = Inr (Some ''1.3.0'')"
    by code_simp
  have r: "rangeToVersion ''^1.2.3'' = Some ''1.2.3''" by code_simp
  have d: "diff (Some ''1.2.3'') (Some ''1.3.0'') = Inr (Some ''minor'')" by code_simp
  from selected_within_ceiling [OF c f] r d
  have "''minor'' \<in> set (findVersion_semvers ?opts)" by simp
  with f r d show ?thesis by simp
qed


section \<open>The choice by greatest version\<close>

lemma split_not_Nil: "split sep s \<noteq> []"
  by (induction s) (auto split: list.splits)

lemma set_split:
  "c \<in> set s \<Longrightarrow> c = sep \<or> (\<exists>part\<in>set (split sep s). c \<in> set part)"
proof (induction s)
  case Nil
  then show ?case by simp
next
  case (Cons x xs)
  show ?case
  proof (cases "x = sep")
    case True
    with Cons show ?thesis by auto
  next
    case False
    obtain y ys where s: "split sep xs = y # ys"
      using split_not_Nil [of sep xs] by (cases "split sep xs") auto
    show ?thesis
    proof (cases "c = x")
      case True
      with False s show ?thesis by simp
    next
      case False
      with Cons have "c = sep \<or> (\<exists>part\<in>set (split sep xs). c \<in> set part)" by simp
      with s \<open>x \<noteq> sep\<close> show ?thesis by auto
    qed
  qed
qed

lemma idchar_not_space: "is_idchar c \<Longrightarrow> \<not> is_space c"
  unfolding is_idchar_def is_digit_def is_letter_def is_space_def by auto

lemma prerelease_identifier_chars: "prerelease_identifier s \<Longrightarrow> \<forall>c\<in>set s. is_idchar c"
  by (auto simp: prerelease_identifier_def numeric_identifier_def nonnumeric_identifier_def
      is_idchar_def list_all_iff)

lemma build_identifier_chars: "build_identifier s \<Longrightarrow> \<forall>c\<in>set s. is_idchar c"
  by (auto simp: build_identifier_def list_all_iff)

lemma identifiers_no_space:
  assumes "list_all P (split (CHR ''.'') s)" and "\<And>x. P x \<Longrightarrow> \<forall>c\<in>set x. is_idchar c"
  shows "\<forall>c\<in>set s. \<not> is_space c"
proof
  fix c assume "c \<in> set s"
  from set_split [OF this, of "CHR ''.''"] show "\<not> is_space c"
  proof
    assume "c = CHR ''.''"
    then show ?thesis by (simp add: is_space_def)
  next
    assume "\<exists>part\<in>set (split (CHR ''.'') s). c \<in> set part"
    with assms show ?thesis by (auto simp: list_all_iff dest: idchar_not_space)
  qed
qed

lemma tail_groups_no_space:
  assumes "tail_groups s = Some g"
  shows "\<forall>c\<in>set s. \<not> is_space c"
proof (cases s)
  case Nil
  then show ?thesis by simp
next
  case (Cons h r)
  have plus: "\<not> is_space (CHR ''+'')" and dash: "\<not> is_space (CHR ''-'')"
    by (simp_all add: is_space_def)
  show ?thesis
  proof (cases "h = CHR ''+''")
    case True
    with assms Cons have "list_all build_identifier (split (CHR ''.'') r)"
      by (auto simp: tail_groups_def split: if_splits)
    from identifiers_no_space [OF this build_identifier_chars] Cons True plus
    show ?thesis by simp
  next
    case False
    with assms Cons have h: "h = CHR ''-''"
      by (auto simp: tail_groups_def split: if_splits)
    let ?pre = "takeWhile (\<lambda>c. c \<noteq> CHR ''+'') r" and ?after = "dropWhile (\<lambda>c. c \<noteq> CHR ''+'') r"
    from assms Cons h have p: "list_all prerelease_identifier (split (CHR ''.'') ?pre)"
      by (auto simp: tail_groups_def Let_def split: if_splits)
    have a: "\<forall>c\<in>set ?after. \<not> is_space c"
    proof (cases ?after)
      case Nil
      show ?thesis unfolding Nil by simp
    next
      case (Cons p b)
      with assms \<open>s = h # r\<close> h have "list_all build_identifier (split (CHR ''.'') b)"
        by (auto simp: tail_groups_def Let_def split: if_splits)
      from identifiers_no_space [OF this build_identifier_chars]
      have "\<forall>c\<in>set b. \<not> is_space c" by simp
      moreover from Cons have "p = CHR ''+''" using hd_dropWhile [of "\<lambda>c. c \<noteq> CHR ''+''" r] by auto
      ultimately show ?thesis using Cons plus by simp
    qed
    from identifiers_no_space [OF p prerelease_identifier_chars]
    have "\<forall>c\<in>set ?pre. \<not> is_space c" by simp
    moreover have "set r = set ?pre \<union> set ?after"
      by (metis set_append takeWhile_dropWhile_id)
    ultimately have "\<forall>c\<in>set r. \<not> is_space c" using a by blast
    with Cons h dash show ?thesis by simp
  qed
qed

lemma match_FULL_no_space:
  assumes "match_FULL s = Some g"
  shows "\<forall>c\<in>set s. \<not> is_space c"
proof -
  obtain a b c pre bld where g: "g = (a, b, c, pre, bld)" by (cases g) auto
  from match_FULL_SomeD [OF assms [unfolded g]] obtain s5 where
    s: "strip_v s = a @ ''.'' @ b @ ''.'' @ c @ s5" and t: "tail_groups s5 = Some (pre, bld)"
    and n: "numeric_identifier a" "numeric_identifier b" "numeric_identifier c"
    by blast
  have d: "\<forall>x\<in>set y. \<not> is_space x" if "numeric_identifier y" for y
    using that by (auto simp: numeric_identifier_def list_all_iff dest: digit_not_space)
  have "\<not> is_space (CHR ''.'')" by (simp add: is_space_def)
  with d [OF n(1)] d [OF n(2)] d [OF n(3)] tail_groups_no_space [OF t] s
  have sv: "\<forall>x\<in>set (strip_v s). \<not> is_space x" by auto
  have "\<not> is_space (CHR ''v'')" by (simp add: is_space_def)
  with sv show ?thesis
    by (cases s) (auto simp: strip_v_def split: if_splits)
qed

lemma match_FULL_trim: "match_FULL s = Some g \<Longrightarrow> trim s = s"
  by (rule trim_no_space [OF match_FULL_no_space])

lemma parse_SomeD:
  assumes "parse (Some s) = Some p"
  shows "\<exists>a b c pre bld. match_FULL s = Some (a, b, c, pre, bld) \<and> major p = nat_of_string a \<and>
     minor p = nat_of_string b \<and> patch p = nat_of_string c"
proof -
  from assms obtain g where g: "match_FULL s = Some g"
    by (auto simp: parse_def split: if_splits)
  obtain a b c pre bld where "g = (a, b, c, pre, bld)" by (cases g) auto
  with g have m: "match_FULL s = Some (a, b, c, pre, bld)" by simp
  from parse_SemVer_new [OF assms] m match_FULL_trim [OF m]
  have "major p = nat_of_string a \<and> minor p = nat_of_string b \<and> patch p = nat_of_string c"
    by (auto simp: SemVer_new_def split: if_splits)
  with m show ?thesis by blast
qed

text \<open>What follows the three numbers in the text of a version.\<close>

definition version_tail :: "SemVer \<Rightarrow> string" where
  "version_tail p =
     (if prerelease p = [] then [] else ''-'' @ join ''.'' (map identifier_string (prerelease p)))"

lemma version_tail_start: "version_tail p = [] \<or> \<not> is_digit (hd (version_tail p))"
  by (simp add: version_tail_def is_digit_def)

lemma version_of_tail: "version_of p = dotted (major p) (minor p) (patch p) @ version_tail p"
  by (simp add: version_of_dotted version_tail_def)

text \<open>The text of a version, read back, has the same three numbers.\<close>

lemma parse_version_of:
  assumes "parse (Some (version_of p)) = Some y"
  shows "major y = major p \<and> minor y = minor p \<and> patch y = patch p"
proof -
  from parse_SomeD [OF assms] obtain a b c pre bld where
    m: "match_FULL (version_of p) = Some (a, b, c, pre, bld)"
    and y: "major y = nat_of_string a" "minor y = nat_of_string b" "patch y = nat_of_string c"
    by blast
  from m match_FULL_dotted [where r = "version_tail p" and a = "major p" and b = "minor p"
      and c = "patch p", OF version_tail_start]
  have "a = string_of_nat (major p) \<and> b = string_of_nat (minor p) \<and> c = string_of_nat (patch p)"
    by (auto simp: version_of_tail split: option.splits)
  with y show ?thesis by (simp add: nat_of_string_of_nat)
qed


text \<open>\<open>semver.coerce\<close> of the text of a version: its three numbers, without the prerelease.\<close>

lemma coerce_version_of:
  assumes "safe p"
  shows "coerce (version_of p) =
     Some \<lparr> major = major p, minor = minor p, patch = patch p, prerelease = [], build = [] \<rparr>"
proof -
  let ?a = "string_of_nat (major p)" and ?b = "string_of_nat (minor p)"
  let ?c = "string_of_nat (patch p)" and ?t = "version_tail p"
  let ?q = "\<lparr> major = major p, minor = minor p, patch = patch p, prerelease = [], build = [] \<rparr>"
  from assms have s: "major p \<le> MAX_SAFE_INTEGER" "minor p \<le> MAX_SAFE_INTEGER"
    "patch p \<le> MAX_SAFE_INTEGER"
    by (simp_all add: safe_def)
  note len = s [THEN string_of_nat_safe_length]
  have v: "version_of p = ?a @ ''.'' @ ?b @ ''.'' @ ?c @ ?t"
    by (simp add: version_of_tail dotted_def)
  have "is_digit (hd (version_of p))"
    using dotted_hd_digit [of "major p" "minor p" "patch p" ?t] by (simp add: version_of_tail)
  moreover have "version_of p \<noteq> []" by (simp add: v string_of_nat_not_Nil)
  ultimately have dw: "dropWhile (\<lambda>c. \<not> is_digit c) (version_of p) = version_of p"
    by (cases "version_of p") auto
  have d1: "digits1 (version_of p) = Some (?a, ''.'' @ ?b @ ''.'' @ ?c @ ?t)"
    unfolding v by (rule digits1_string_of_nat) (simp add: dot_not_digit)
  have d2: "digits1 (?b @ ''.'' @ ?c @ ?t) = Some (?b, ''.'' @ ?c @ ?t)"
    by (rule digits1_string_of_nat) (simp add: dot_not_digit)
  have d3: "digits1 (?c @ ?t) = Some (?c, ?t)"
    by (rule digits1_string_of_nat) (rule version_tail_start)
  have c2: "dot_component (''.'' @ ?b @ ''.'' @ ?c @ ?t) = Some (?b, ''.'' @ ?c @ ?t)"
    using d2 len(2) by (simp add: dot_component_def lit_def)
  have c3: "dot_component (''.'' @ ?c @ ?t) = Some (?c, ?t)"
    using d3 len(3) by (simp add: dot_component_def lit_def)
  have g: "coerce_groups ?a (''.'' @ ?b @ ''.'' @ ?c @ ?t) = (?a, Some ?b, Some ?c)"
    by (simp only: coerce_groups_def c2 c3 option.case prod.case)
  have m: "coerce_match (version_of p) = Some (?a, Some ?b, Some ?c)"
    by (subst coerce_match.simps) (simp only: dw d1 g len(1) option.case prod.case if_True)
  have q: "version_of ?q = ?a @ ''.'' @ ?b @ ''.'' @ ?c"
    by (simp add: version_of_def)
  have "safe ?q" using assms by (simp add: safe_def)
  from parse_release [OF this] have "parse (Some (version_of ?q)) = Some ?q" by simp
  with m q show ?thesis by (simp add: coerce_def)
qed

lemma compareMain_ge_iff:
  "compareMain a b \<ge> 0 \<longleftrightarrow>
     major a > major b \<or> (major a = major b \<and>
       (minor a > minor b \<or> (minor a = minor b \<and> patch a \<ge> patch b)))"
  by (auto simp: compareMain_def compare_nat_def)

lemma compare_release_ge:
  assumes "prerelease a = []"
  shows "compare_SemVer a b \<ge> 0 \<longleftrightarrow> compareMain a b \<ge> 0"
proof (cases "compareMain a b = 0")
  case True
  with assms show ?thesis by (simp add: compare_SemVer_def comparePre_def)
next
  case False
  then show ?thesis by (simp add: compare_SemVer_def)
qed

text \<open>
  A version qualifies against the running candidate when it passes the two tests of the
  loop of \<open>findVersion\<close>: its prerelease is allowed, and its difference class to the
  candidate is accepted.
\<close>

definition qualifies :: "opts \<Rightarrow> string option \<Rightarrow> string \<Rightarrow> bool" where
  "qualifies opts tempVersion version =
     (case parse (Some version) of
        None \<Rightarrow> False
      | Some parsed \<Rightarrow>
          \<not> skip_prerelease opts parsed \<and>
          (case diff tempVersion (Some (version_of parsed)) of
             Inl e \<Rightarrow> False
           | Inr d \<Rightarrow> d \<noteq> None \<and> the d \<in> set (findVersion_semvers opts)))"

lemma findVersion_step_greatest:
  assumes g: "useGreatest opts \<or> time data = None"
    and s: "findVersion_step data opts st x = Inr st'"
  shows "(\<not> qualifies opts (fst st) x \<and> st' = st) \<or>
     (qualifies opts (fst st) x \<and>
      (\<exists>parsed d b. parse (Some x) = Some parsed \<and>
         diff (fst st) (Some (version_of parsed)) = Inr (Some d) \<and>
         gte (Some (version_of \<lparr> major = major parsed, minor = minor parsed,
                patch = patch parsed, prerelease = [], build = [] \<rparr>)) (fst st) = Inr b \<and>
         fst st' = (if b then Some (version_of parsed) else fst st)))"
proof -
  from s obtain parsed where p: "parse (Some x) = Some parsed"
    by (auto simp: findVersion_step_def split: option.splits)
  note c = coerce_version_of [OF parse_safe [OF p]]
  show ?thesis
  proof (cases "qualifies opts (fst st) x")
    case False
    with s p have "st' = st"
      by (auto simp: findVersion_step_def qualifies_def split: sum.splits if_splits)
    with False show ?thesis by simp
  next
    case True
    with p obtain d where d: "diff (fst st) (Some (version_of parsed)) = Inr (Some d)"
      and a: "d \<in> set (findVersion_semvers opts)" and k: "\<not> skip_prerelease opts parsed"
      by (auto simp: qualifies_def split: sum.splits)
    from s p d a k g have "pick_greatest st parsed = Inr st'"
      by (simp add: findVersion_step_def)
    then obtain b where "gte (Some (version_of \<lparr> major = major parsed, minor = minor parsed,
                patch = patch parsed, prerelease = [], build = [] \<rparr>)) (fst st) = Inr b"
      and "fst st' = (if b then Some (version_of parsed) else fst st)"
      by (auto simp: pick_greatest_def c split: sum.splits)
    with True p d show ?thesis by blast
  qed
qed

lemma gte_release:
  assumes "safe q" and "prerelease q = []" and "parse t = Some pt"
  shows "gte (Some (version_of q)) t = Inr (compareMain q pt \<ge> 0)"
proof -
  from parse_release [OF assms(1,2)] have "parse (Some (version_of q)) = Some (q\<lparr>build := []\<rparr>)" .
  from compare_parsed [OF this assms(3)]
  have "gte (Some (version_of q)) t = Inr (compare_SemVer (q\<lparr>build := []\<rparr>) pt \<ge> 0)"
    by (simp add: gte_def)
  also have "compare_SemVer (q\<lparr>build := []\<rparr>) pt \<ge> 0 \<longleftrightarrow> compareMain (q\<lparr>build := []\<rparr>) pt \<ge> 0"
    by (rule compare_release_ge) (simp add: assms(2))
  also have "\<dots> \<longleftrightarrow> compareMain q pt \<ge> 0"
    by (simp add: compareMain_def)
  finally show ?thesis .
qed

text \<open>
  One round in the mode of the greatest version: the three numbers of the candidate do
  not go down, and they are not below those of the version of this round if it qualifies.
\<close>

lemma findVersion_step_greatest_order:
  assumes g: "useGreatest opts \<or> time data = None"
    and s: "findVersion_step data opts st x = Inr st'"
    and t: "parse (fst st) = Some pt"
  shows "\<exists>pt'. parse (fst st') = Some pt' \<and> compareMain pt' pt \<ge> 0 \<and>
     (qualifies opts (fst st) x \<longrightarrow> (\<exists>px. parse (Some x) = Some px \<and> compareMain pt' px \<ge> 0))"
proof -
  from findVersion_step_greatest [OF g s] show ?thesis
  proof
    assume "\<not> qualifies opts (fst st) x \<and> st' = st"
    with t show ?thesis by (auto simp: compareMain_ge_iff)
  next
    assume "qualifies opts (fst st) x \<and>
      (\<exists>parsed d b. parse (Some x) = Some parsed \<and>
         diff (fst st) (Some (version_of parsed)) = Inr (Some d) \<and>
         gte (Some (version_of \<lparr> major = major parsed, minor = minor parsed,
                patch = patch parsed, prerelease = [], build = [] \<rparr>)) (fst st) = Inr b \<and>
         fst st' = (if b then Some (version_of parsed) else fst st))"
    then obtain parsed d b where p: "parse (Some x) = Some parsed"
      and d: "diff (fst st) (Some (version_of parsed)) = Inr (Some d)"
      and b: "gte (Some (version_of \<lparr> major = major parsed, minor = minor parsed,
                patch = patch parsed, prerelease = [], build = [] \<rparr>)) (fst st) = Inr b"
      and f: "fst st' = (if b then Some (version_of parsed) else fst st)"
      by blast
    let ?q = "\<lparr> major = major parsed, minor = minor parsed, patch = patch parsed,
        prerelease = [], build = [] \<rparr>"
    from parse_safe [OF p] have "safe ?q" by (simp add: safe_def)
    from gte_release [OF this _ t] b have bb: "b \<longleftrightarrow> compareMain ?q pt \<ge> 0" by simp
    from diff_SomeD [OF d] obtain y where y: "parse (Some (version_of parsed)) = Some y" by blast
    note e = parse_version_of [OF y]
    show ?thesis
    proof (cases b)
      case True
      with f y have "parse (fst st') = Some y" by simp
      moreover from True bb e have "compareMain y pt \<ge> 0" by (simp add: compareMain_ge_iff)
      moreover from e have "compareMain y parsed \<ge> 0" by (simp add: compareMain_ge_iff)
      ultimately show ?thesis using p by blast
    next
      case False
      with f t have "parse (fst st') = Some pt" by simp
      moreover have "compareMain pt pt \<ge> 0" by (simp add: compareMain_ge_iff)
      moreover from False bb have "compareMain pt parsed \<ge> 0" by (auto simp: compareMain_ge_iff)
      ultimately show ?thesis using p by blast
    qed
  qed
qed

lemma findVersion_loop_greatest_order:
  assumes g: "useGreatest opts \<or> time data = None"
  shows "findVersion_loop data opts st ys = Inr st' \<Longrightarrow> parse (fst st) = Some pt \<Longrightarrow>
     \<exists>pt'. parse (fst st') = Some pt' \<and> compareMain pt' pt \<ge> 0"
proof (induction ys arbitrary: st pt)
  case Nil
  then show ?case by (auto simp: compareMain_ge_iff)
next
  case (Cons y ys)
  from Cons.prems(1) obtain st1 where 1: "findVersion_step data opts st y = Inr st1"
    and 2: "findVersion_loop data opts st1 ys = Inr st'"
    by (auto split: sum.splits)
  from findVersion_step_greatest_order [OF g 1 Cons.prems(2)] obtain p1 where
    p1: "parse (fst st1) = Some p1" and o1: "compareMain p1 pt \<ge> 0"
    by blast
  from Cons.IH [OF 2 p1] obtain p2 where "parse (fst st') = Some p2" and "compareMain p2 p1 \<ge> 0"
    by blast
  with o1 show ?case by (auto simp: compareMain_ge_iff)
qed

lemma findVersion_loop_append:
  "findVersion_loop data opts st (xs @ ys) =
     (case findVersion_loop data opts st xs of
        Inl e \<Rightarrow> Inl e
      | Inr st1 \<Rightarrow> findVersion_loop data opts st1 ys)"
  by (induction xs arbitrary: st) (auto split: sum.splits)


text \<open>
  The choice of one round, exactly: a qualifying version replaces the candidate when its
  three numbers are not below the candidate's, whatever the two prereleases are.
\<close>

lemma findVersion_step_greatest_choice:
  assumes g: "useGreatest opts \<or> time data = None"
    and s: "findVersion_step data opts st x = Inr st'"
    and q: "qualifies opts (fst st) x"
    and t: "parse (fst st) = Some pt" and x: "parse (Some x) = Some px"
  shows "fst st' = (if compareMain px pt \<ge> 0 then Some (version_of px) else fst st)"
proof -
  let ?q = "\<lparr> major = major px, minor = minor px, patch = patch px,
      prerelease = [], build = [] \<rparr>"
  from findVersion_step_greatest [OF g s] q x obtain b where
    b: "gte (Some (version_of ?q)) (fst st) = Inr b"
    and f: "fst st' = (if b then Some (version_of px) else fst st)"
    by auto
  from parse_safe [OF x] have "safe ?q" by (simp add: safe_def)
  from gte_release [OF this _ t] b have "b \<longleftrightarrow> compareMain ?q pt \<ge> 0" by simp
  also have "compareMain ?q pt = compareMain px pt" by (simp add: compareMain_def)
  finally show ?thesis using f by simp
qed

text \<open>
  What the loop keeps in the mode of the greatest version: the version that \<open>findVersion\<close>
  returns is not below any qualifying version in the comparison of major, minor and patch
  alone (\<open>compareMain\<close>).  A version \<open>x\<close> of the list qualifies when it passes the two
  tests of the loop against the candidate reached on the versions before it.
\<close>

lemma greatest_in_main_version:
  assumes g: "useGreatest opts \<or> time data = None"
    and f: "findVersion data (xs @ x # ys) opts = Inr (Some v)"
    and pre: "findVersion_loop data opts (rangeToVersion (range opts), 0) xs = Inr st"
    and q: "qualifies opts (fst st) x"
  shows "\<exists>pv px. parse (Some v) = Some pv \<and> parse (Some x) = Some px \<and> compareMain pv px \<ge> 0"
proof -
  from f obtain st2 where l: "findVersion_loop data opts (rangeToVersion (range opts), 0)
      (xs @ x # ys) = Inr st2" and v: "fst st2 = Some v"
    by (auto simp: findVersion_def split: sum.splits prod.splits if_splits)
  from l pre have "findVersion_loop data opts st (x # ys) = Inr st2"
    by (simp add: findVersion_loop_append)
  then obtain st1 where 1: "findVersion_step data opts st x = Inr st1"
    and 2: "findVersion_loop data opts st1 ys = Inr st2"
    by (auto split: sum.splits)
  from q obtain pt where pt: "parse (fst st) = Some pt"
    by (auto simp: qualifies_def split: option.splits sum.splits dest: diff_SomeD)
  from findVersion_step_greatest_order [OF g 1 pt] q obtain p1 px where
    p1: "parse (fst st1) = Some p1" and px: "parse (Some x) = Some px"
    and o1: "compareMain p1 px \<ge> 0"
    by blast
  from findVersion_loop_greatest_order [OF g 2 p1] obtain p2 where
    p2: "parse (fst st2) = Some p2" and o2: "compareMain p2 p1 \<ge> 0"
    by blast
  from o1 o2 have "compareMain p2 px \<ge> 0" by (auto simp: compareMain_ge_iff)
  with p2 px v show ?thesis by auto
qed

text \<open>
  C4.  With \<open>useGreatest\<close> (the option whose help text is "Prefer greatest over latest
  version"), or without publication times (where the program's comment says it falls back
  to greatest), the version returned should be greater than or equal to every qualifying
  version in the full order of semver, prereleases included.  The program does not keep
  that: its test \<open>semver.gte(semver.coerce(parsed.version).version, tempVersion)\<close> compares
  the version of the round without its prerelease.  With the old range \<open>^0.9.0\<close>,
  prereleases allowed, and the versions 1.0.0-rc.1 and 1.0.0-beta.1 in this order, both
  versions qualify, 1.0.0-rc.1 is the greater one, and \<open>findVersion\<close> returns
  1.0.0-beta.1.
\<close>

theorem greatest_not_returned:
  "findVersion
     \<lparr> name = ''pkg'', versions = [''1.0.0-rc.1'', ''1.0.0-beta.1''],
       dist_tags = Some [''latest'' \<mapsto> ''1.0.0-rc.1''], time = None, err = None \<rparr>
     [''1.0.0-rc.1'', ''1.0.0-beta.1'']
     \<lparr> usePre = True, useRel = False, useGreatest = True,
       semvers = [''patch'', ''minor'', ''major''], range = ''^0.9.0'' \<rparr>
     = Inr (Some ''1.0.0-beta.1'') \<and>
   qualifies \<lparr> usePre = True, useRel = False, useGreatest = True,
       semvers = [''patch'', ''minor'', ''major''], range = ''^0.9.0'' \<rparr>
     (Some ''0.9.0'') ''1.0.0-rc.1'' \<and>
   qualifies \<lparr> usePre = True, useRel = False, useGreatest = True,
       semvers = [''patch'', ''minor'', ''major''], range = ''^0.9.0'' \<rparr>
     (Some ''1.0.0-rc.1'') ''1.0.0-beta.1'' \<and>
   gt (Some ''1.0.0-rc.1'') (Some ''1.0.0-beta.1'') = Inr True \<and>
   gte (Some ''1.0.0-beta.1'') (Some ''1.0.0-rc.1'') = Inr False"
  by code_simp

end
